theory Spec2Isabelle
  imports Main "HOL-Library.Multiset"
begin

section \<open>Quick notes: the client-side note store\<close>

text \<open>
  A shallow embedding of the state-and-persistence logic of the notes page: the
  storage adapter (\<open>loadNotesFromStorage\<close>, \<open>saveNotesToStorage\<close>), the
  identifier generator, the store operations of \<open>HomePage\<close> (\<open>createNote\<close>,
  \<open>deleteNote\<close>, \<open>updateSelected\<close>, \<open>filteredNotes\<close>, \<open>importNotes\<close>) and the
  debounced save effect.

  Conventions of the model.
  \<^item> A JavaScript string is a \<open>string\<close> whose characters are read as the code units
    U+0000 to U+00FF; \<open>trim\<close> is exact on that range. The case mapping behind
    \<open>toLowerCase\<close> is the platform's and is a parameter of the search.
  \<^item> A JavaScript number is an \<open>int\<close>: timestamps are integral milliseconds
    (\<open>Date.now()\<close>), exact in a double.
  \<^item> \<open>Date.now()\<close> and \<open>Math.random()\<close> are read from the environment, so every
    function that calls them takes the value read as an argument.
\<close>

subsection \<open>Data model\<close>

text \<open>
  The type \<open>Note\<close> of the source. The fields \<open>title\<close> and \<open>content\<close> carry a type
  parameter: in the store they are strings (\<open>note\<close>); what \<open>loadNotesFromStorage\<close>
  builds from a stored record carries whatever JSON value the record had there.
\<close>

record 'v note_of =
  id_note :: string
  title :: 'v
  content :: 'v
  updatedAt :: int

type_synonym "note" = "string note_of"

text \<open>\<open>Partial<Pick<Note, "title" | "content">>\<close>: \<open>None\<close> is an absent property.\<close>

record partial =
  title_p :: "string option"
  content_p :: "string option"

text \<open>The three state cells of \<open>HomePage\<close>; \<open>selectedId = None\<close> is \<open>null\<close>.\<close>

record store =
  "notes" :: "note list"
  selectedId :: "string option"
  query :: string

subsection \<open>Sorting by timestamp\<close>

text \<open>
  \<open>xs.sort((a, b) => b.updatedAt - a.updatedAt)\<close>: \<open>Array.prototype.sort\<close> is stable, so
  the result is the stable sort by descending \<open>updatedAt\<close>.
\<close>

definition sortDesc :: "'v note_of list \<Rightarrow> 'v note_of list" where
  "sortDesc xs = sort_key (\<lambda>n. - updatedAt n) xs"

definition sorted_desc :: "'v note_of list \<Rightarrow> bool" where
  "sorted_desc xs = sorted_wrt (\<lambda>a b. updatedAt b \<le> updatedAt a) xs"

subsection \<open>Strings\<close>

text \<open>
  \<open>String.prototype.trim\<close> removes white space and line terminators at both ends; in
  the range U+0000 to U+00FF these are TAB, LF, VT, FF, CR, SPACE and NBSP.
\<close>

definition isSpace :: "char \<Rightarrow> bool" where
  "isSpace c = ((of_char c :: nat) \<in> {9, 10, 11, 12, 13, 32, 160})"

definition trim :: "string \<Rightarrow> string" where
  "trim s = rev (dropWhile isSpace (rev (dropWhile isSpace s)))"

text \<open>
  \<open>String.prototype.toLowerCase\<close> returns the empty string on the empty string; on any
  other string it applies the Unicode case mapping of the platform. That mapping works
  on the whole string: it depends on the context of a character (a capital sigma at the
  end of a word) and can change the length (U+0130), so it is no map over characters.
  It is not part of the source and is the parameter \<open>cm\<close>.
\<close>

definition toLowerCase :: "(string \<Rightarrow> string) \<Rightarrow> string \<Rightarrow> string" where
  "toLowerCase cm s = (if s = [] then [] else cm s)"

text \<open>
  On a string made of the code units U+0000 to U+00FF the platform's mapping does go
  character by character: the letters with a lower-case form are A to Z and U+00C0 to
  U+00DE without the multiplication sign U+00D7, and the lower-case form is 32 code
  units up. \<open>lowerLatin1\<close> is the case mapping on these strings.
\<close>

definition lowerChar :: "char \<Rightarrow> char" where
  "lowerChar c =
     (let k = (of_char c :: nat)
      in if (65 \<le> k \<and> k \<le> 90) \<or> (192 \<le> k \<and> k \<le> 222 \<and> k \<noteq> 215)
         then char_of (k + 32) else c)"

definition lowerLatin1 :: "string \<Rightarrow> string" where
  "lowerLatin1 s = map lowerChar s"

text \<open>\<open>s.includes(q)\<close>: \<open>q\<close> occurs in \<open>s\<close> as a contiguous substring.\<close>

fun "includes" :: "string \<Rightarrow> string \<Rightarrow> bool" where
  "includes [] q = (q = [])"
| "includes (c # s) q = (take (length q) (c # s) = q \<or> includes s q)"

subsection \<open>Search\<close>

text \<open>
  \<^verbatim>\<open>
  const filteredNotes = useMemo(() => {
    const q = query.trim().toLowerCase();
    if (!q) return notes;
    return notes.filter(
      (n) =>
        n.title.toLowerCase().includes(q) || n.content.toLowerCase().includes(q)
    );
  }, [notes, query]);
  \<close>
\<close>

definition filteredNotes :: "(string \<Rightarrow> string) \<Rightarrow> store \<Rightarrow> note list" where
  "filteredNotes cm st =
     (let q = toLowerCase cm (trim (query st))
      in if q = [] then notes st
         else filter (\<lambda>n. includes (toLowerCase cm (title n)) q
                          \<or> includes (toLowerCase cm (content n)) q) (notes st))"

text \<open>
  \<open>q\<close> occurs in \<open>s\<close> as a substring when the case of letters is ignored, for a
  lower-casing \<open>f\<close> of single characters: some substring of \<open>s\<close> agrees with \<open>q\<close>
  character by character up to \<open>f\<close>.
\<close>

definition contains_ci :: "(char \<Rightarrow> char) \<Rightarrow> string \<Rightarrow> string \<Rightarrow> bool" where
  "contains_ci f s q = (\<exists>pre w post. s = pre @ w @ post \<and> map f w = map f q)"

subsection \<open>JSON values and the durable store\<close>

text \<open>
  The values \<open>JSON.parse\<close> returns. An object is the list of its properties, each
  name once; \<open>JNum\<close> carries an integer, as the timestamps are.
\<close>

datatype json =
  JNull
| JBool bool
| JNum int
| JStr string
| JArr "json list"
| JObj "(string \<times> json) list"

text \<open>
  \<open>JSON.parse\<close> and \<open>JSON.stringify\<close> are the platform's. A piece of text is
  classified by what \<open>JSON.parse\<close> does with it: \<open>Json j\<close> is the serialisation of
  \<open>j\<close>, on which \<open>JSON.parse\<close> returns \<open>j\<close>; \<open>Malformed s\<close> is a text \<open>s\<close> on which it
  throws \<open>SyntaxError\<close> (the empty text is one of these).
\<close>

datatype jsontext = Malformed string | Json json

datatype js_error = SyntaxError | TypeError

fun JSON_parse :: "jsontext \<Rightarrow> js_error + json" where
  "JSON_parse (Malformed s) = Inl SyntaxError"
| "JSON_parse (Json j) = Inr j"

definition JSON_stringify :: "json \<Rightarrow> jsontext" where
  "JSON_stringify j = Json j"

text \<open>
  Reading one of the properties \<open>id\<close>, \<open>title\<close>, \<open>content\<close>, \<open>updatedAt\<close> of a value:
  on \<open>null\<close> the read throws \<open>TypeError\<close>; on an object it is the property's value or
  \<open>undefined\<close> (\<open>None\<close>); a boolean, number, string or array has none of the four.
\<close>

fun readProp :: "json \<Rightarrow> string \<Rightarrow> js_error + json option" where
  "readProp JNull k = Inl TypeError"
| "readProp (JObj kvs) k = Inr (map_of kvs k)"
| "readProp v k = Inr None"

text \<open>
  \<open>localStorage\<close>, as far as the page uses it. \<open>hasWindow\<close> is false where there is no
  \<open>window\<close> (and so no \<open>localStorage\<close>); \<open>accepts t\<close> is false for a text on which
  \<open>setItem\<close> throws (the quota is exceeded).
\<close>

record storage =
  hasWindow :: bool
  items :: "string \<Rightarrow> jsontext option"
  accepts :: "jsontext \<Rightarrow> bool"

definition STORAGE_KEY :: string where
  "STORAGE_KEY = ''quick-notes-v1''"

subsection \<open>Storage adapter\<close>

text \<open>
  \<^verbatim>\<open>
  function loadNotesFromStorage(): Note[] {
    if (typeof window === "undefined") return [];
    try {
      const raw = localStorage.getItem(STORAGE_KEY);
      if (!raw) return [];
      const parsed = JSON.parse(raw) as Note[];
      if (!Array.isArray(parsed)) return [];
      return parsed
        .filter((n) => typeof n.id === "string")
        .map((n) => ({
          id: n.id,
          title: n.title ?? "Untitled",
          content: n.content ?? "",
          updatedAt: typeof n.updatedAt === "number" ? n.updatedAt : Date.now(),
        }))
        .sort((a, b) => b.updatedAt - a.updatedAt);
    } catch {
      return [];
    }
  }
  \<close>
  The callback of \<open>filter\<close> throws on an element that is \<open>null\<close>; \<open>filterE\<close> stops
  there with the error.
\<close>

definition hasStringId :: "json \<Rightarrow> js_error + bool" where
  "hasStringId n =
     (case readProp n ''id'' of
        Inl e \<Rightarrow> Inl e
      | Inr v \<Rightarrow> Inr (case v of Some (JStr i) \<Rightarrow> True | _ \<Rightarrow> False))"

fun filterE :: "('a \<Rightarrow> js_error + bool) \<Rightarrow> 'a list \<Rightarrow> js_error + 'a list" where
  "filterE p [] = Inr []"
| "filterE p (x # xs) =
     (case p x of
        Inl e \<Rightarrow> Inl e
      | Inr b \<Rightarrow> (case filterE p xs of
                   Inl e \<Rightarrow> Inl e
                 | Inr ys \<Rightarrow> Inr (if b then x # ys else ys)))"

text \<open>\<open>v ?? d\<close>: \<open>d\<close> when \<open>v\<close> is \<open>undefined\<close> or \<open>null\<close>, else \<open>v\<close>.\<close>

fun nullish :: "json option \<Rightarrow> json \<Rightarrow> json" where
  "nullish None d = d"
| "nullish (Some JNull) d = d"
| "nullish (Some v) d = v"

text \<open>
  The callback of \<open>map\<close>, on an element that passed the filter: an object whose \<open>id\<close>
  is a string (for any other value the model puts the empty string there).
\<close>

definition field :: "json \<Rightarrow> string \<Rightarrow> json option" where
  "field n k = (case readProp n k of Inl e \<Rightarrow> None | Inr v \<Rightarrow> v)"

definition normalize :: "int \<Rightarrow> json \<Rightarrow> json note_of" where
  "normalize now n =
     \<lparr> id_note = (case field n ''id'' of Some (JStr i) \<Rightarrow> i | _ \<Rightarrow> []),
       title = nullish (field n ''title'') (JStr ''Untitled''),
       content = nullish (field n ''content'') (JStr []),
       updatedAt = (case field n ''updatedAt'' of Some (JNum u) \<Rightarrow> u | _ \<Rightarrow> now) \<rparr>"

text \<open>The body of the \<open>try\<close>, from \<open>JSON.parse\<close> on.\<close>

definition parseNotes :: "int \<Rightarrow> jsontext \<Rightarrow> js_error + json note_of list" where
  "parseNotes now raw =
     (case JSON_parse raw of
        Inl e \<Rightarrow> Inl e
      | Inr parsed \<Rightarrow>
          (case parsed of
             JArr xs \<Rightarrow>
               (case filterE hasStringId xs of
                  Inl e \<Rightarrow> Inl e
                | Inr ys \<Rightarrow> Inr (sortDesc (map (normalize now) ys)))
           | _ \<Rightarrow> Inr []))"

definition loadNotesFromStorage :: "int \<Rightarrow> storage \<Rightarrow> json note_of list" where
  "loadNotesFromStorage now st =
     (if \<not> hasWindow st then []
      else case items st STORAGE_KEY of
             None \<Rightarrow> []
           | Some raw \<Rightarrow>
               if raw = Malformed [] then []
               else (case parseNotes now raw of Inl e \<Rightarrow> [] | Inr ns \<Rightarrow> ns))"

text \<open>
  \<^verbatim>\<open>
  function saveNotesToStorage(notes: Note[]) {
    try {
      localStorage.setItem(STORAGE_KEY, JSON.stringify(notes));
    } catch {
      // ignore quota or serialization errors
    }
  }
  \<close>
\<close>

definition noteJson :: "note \<Rightarrow> json" where
  "noteJson n =
     JObj [(''id'', JStr (id_note n)), (''title'', JStr (title n)),
           (''content'', JStr (content n)), (''updatedAt'', JNum (updatedAt n))]"

definition saveNotesToStorage :: "note list \<Rightarrow> storage \<Rightarrow> storage" where
  "saveNotesToStorage ns st =
     (let t = JSON_stringify (JArr (map noteJson ns))
      in if hasWindow st \<and> accepts st t
         then st\<lparr>items := (items st)(STORAGE_KEY \<mapsto> t)\<rparr>
         else st)"

text \<open>A note of the store seen as the value \<open>loadNotesFromStorage\<close> returns for it.\<close>

definition untyped :: "note \<Rightarrow> json note_of" where
  "untyped n =
     \<lparr> id_note = id_note n, title = JStr (title n), content = JStr (content n),
       updatedAt = updatedAt n \<rparr>"

subsection \<open>Identifier generation\<close>

text \<open>
  \<^verbatim>\<open>
  function generateId() {
    return (
      Date.now().toString(36) + Math.random().toString(36).slice(2, 8)
    ).toUpperCase();
  }
  \<close>
  \<open>toString36\<close> is \<open>Number.prototype.toString(36)\<close> on an integer. The value of
  \<open>Math.random()\<close>, a fraction in \<open>[0, 1)\<close>, is given by the digits \<open>frac\<close> of its
  base-36 expansion, so that its \<open>toString(36)\<close> is \<open>0.\<close> followed by these digits, and
  \<open>0\<close> when there are none.
\<close>

definition digit36 :: "nat \<Rightarrow> char" where
  "digit36 d = ''0123456789abcdefghijklmnopqrstuvwxyz'' ! (d mod 36)"

function digits36 :: "nat \<Rightarrow> string" where
  "digits36 n = (if n < 36 then [digit36 n] else digits36 (n div 36) @ [digit36 (n mod 36)])"
  by pat_completeness auto
termination
  by (relation "measure (\<lambda>n. n)") auto

declare digits36.simps [simp del]

definition toString36 :: "int \<Rightarrow> string" where
  "toString36 n = (if n < 0 then CHR ''-'' # digits36 (nat (- n)) else digits36 (nat n))"

definition randomString36 :: "nat list \<Rightarrow> string" where
  "randomString36 frac = (if frac = [] then ''0'' else ''0.'' @ map digit36 frac)"

definition slice :: "nat \<Rightarrow> nat \<Rightarrow> string \<Rightarrow> string" where
  "slice i j s = take (j - i) (drop i s)"

text \<open>
  \<open>toUpperCase\<close> is applied to base-36 digits, a point and a minus sign only: the
  letters a to z go to A to Z, 32 code points down.
\<close>

definition upperChar :: "char \<Rightarrow> char" where
  "upperChar c =
     (let k = (of_char c :: nat)
      in if 97 \<le> k \<and> k \<le> 122 then char_of (k - 32) else c)"

definition toUpperCase :: "string \<Rightarrow> string" where
  "toUpperCase s = map upperChar s"

definition generateId :: "int \<Rightarrow> nat list \<Rightarrow> string" where
  "generateId now frac = toUpperCase (toString36 now @ slice 2 8 (randomString36 frac))"

subsection \<open>Store operations\<close>

text \<open>
  \<^verbatim>\<open>
  function createNote() {
    const newNote: Note = {
      id: generateId(),
      title: "Untitled",
      content: "",
      updatedAt: Date.now(),
    };
    setNotes((prev) => [newNote, ...prev]);
    setSelectedId(newNote.id);
  }
  \<close>
  \<open>idNow\<close> is the clock read inside \<open>generateId\<close>, \<open>now\<close> the one read for
  \<open>updatedAt\<close>.
\<close>

definition createNote :: "int \<Rightarrow> nat list \<Rightarrow> int \<Rightarrow> store \<Rightarrow> store" where
  "createNote idNow frac now st =
     (let newNote = \<lparr> id_note = generateId idNow frac, title = ''Untitled'',
                       content = [], updatedAt = now \<rparr>
      in st\<lparr>notes := newNote # notes st, selectedId := Some (id_note newNote)\<rparr>)"

text \<open>
  \<^verbatim>\<open>
  function deleteNote(id: string) {
    setNotes((prev) => prev.filter((n) => n.id !== id));
    if (selectedId === id) {
      setSelectedId(null);
    }
  }
  \<close>
\<close>

definition deleteNote :: "string \<Rightarrow> store \<Rightarrow> store" where
  "deleteNote i st =
     st\<lparr>notes := filter (\<lambda>n. id_note n \<noteq> i) (notes st),
        selectedId := (if selectedId st = Some i then None else selectedId st)\<rparr>"

text \<open>
  \<^verbatim>\<open>
  const selectedNote = useMemo(
    () => notes.find((n) => n.id === selectedId) ?? null,
    [notes, selectedId]
  );
  \<close>
\<close>

definition selectedNote :: "store \<Rightarrow> note option" where
  "selectedNote st = find (\<lambda>n. Some (id_note n) = selectedId st) (notes st)"

text \<open>
  \<^verbatim>\<open>
  useEffect(() => {
    if (!selectedId && notes.length > 0) {
      setSelectedId(notes[0].id);
    }
  }, [notes, selectedId]);
  \<close>
  \<open>!selectedId\<close> holds of \<open>null\<close> and of the empty string.
\<close>

definition autoSelect :: "store \<Rightarrow> store" where
  "autoSelect st =
     (case notes st of
        [] \<Rightarrow> st
      | n # ns \<Rightarrow>
          if selectedId st = None \<or> selectedId st = Some []
          then st\<lparr>selectedId := Some (id_note n)\<rparr> else st)"

text \<open>
  \<^verbatim>\<open>
  function updateSelected(partial: Partial<Pick<Note, "title" | "content">>) {
    if (!selectedNote) return;
    setNotes((prev) =>
      prev
        .map((n) =>
          n.id === selectedNote.id
            ? { ...n, ...partial, updatedAt: Date.now() }
            : n
        )
        .sort((a, b) => b.updatedAt - a.updatedAt)
    );
  }
  \<close>
\<close>

definition applyPartial :: "partial \<Rightarrow> int \<Rightarrow> note \<Rightarrow> note" where
  "applyPartial p now n =
     n\<lparr>title := (case title_p p of None \<Rightarrow> title n | Some t \<Rightarrow> t),
       content := (case content_p p of None \<Rightarrow> content n | Some c \<Rightarrow> c),
       updatedAt := now\<rparr>"

definition updateSelected :: "partial \<Rightarrow> int \<Rightarrow> store \<Rightarrow> store" where
  "updateSelected p now st =
     (case selectedNote st of
        None \<Rightarrow> st
      | Some sel \<Rightarrow>
          st\<lparr>notes :=
               sortDesc (map (\<lambda>n. if id_note n = id_note sel then applyPartial p now n else n)
                             (notes st))\<rparr>)"

subsection \<open>Merge import\<close>

text \<open>
  A \<open>Map<string, Note>\<close> keeps its entries in the order in which their keys were first
  set; \<open>set\<close> on a key that is present replaces the value where it stands.
\<close>

type_synonym 'a jsmap = "(string \<times> 'a) list"

definition map_get :: "'a jsmap \<Rightarrow> string \<Rightarrow> 'a option" where
  "map_get m k = map_of m k"

fun map_set :: "'a jsmap \<Rightarrow> string \<Rightarrow> 'a \<Rightarrow> 'a jsmap" where
  "map_set [] k v = [(k, v)]"
| "map_set ((k', v') # m) k v =
     (if k' = k then (k', v) # m else (k', v') # map_set m k v)"

definition map_values :: "'a jsmap \<Rightarrow> 'a list" where
  "map_values m = map snd m"

text \<open>
  An element of the imported array that is a note: an object whose \<open>id\<close>, \<open>title\<close> and
  \<open>content\<close> are strings and whose \<open>updatedAt\<close> is a number. The record keeps these
  four properties; no operation of the store reads any other.
\<close>

definition asNote :: "json \<Rightarrow> note option" where
  "asNote v =
     (case (field v ''id'', field v ''title'', field v ''content'', field v ''updatedAt'') of
        (Some (JStr i), Some (JStr t), Some (JStr c), Some (JNum u)) \<Rightarrow>
          Some \<lparr> id_note = i, title = t, content = c, updatedAt = u \<rparr>
      | _ \<Rightarrow> None)"

text \<open>
  \<^verbatim>\<open>
  function importNotes(file: File) {
    const reader = new FileReader();
    reader.onload = () => {
      try {
        const imported = JSON.parse(String(reader.result)) as Note[];
        if (!Array.isArray(imported)) return;
        // Merge by id; keep latest updatedAt
        const byId = new Map<string, Note>();
        [...notes, ...imported].forEach((n) => {
          const existing = byId.get(n.id);
          if (!existing || n.updatedAt > existing.updatedAt) {
            byId.set(n.id, n);
          }
        });
        const merged = Array.from(byId.values()).sort(
          (a, b) => b.updatedAt - a.updatedAt
        );
        setNotes(merged);
      } catch {
        // ignore parse errors
      }
    };
    reader.readAsText(file);
  }
  \<close>
\<close>

definition mergeStep :: "note \<Rightarrow> note jsmap \<Rightarrow> note jsmap" where
  "mergeStep n byId =
     (case map_get byId (id_note n) of
        None \<Rightarrow> map_set byId (id_note n) n
      | Some existing \<Rightarrow>
          if updatedAt n > updatedAt existing then map_set byId (id_note n) n else byId)"

definition mergeNotes :: "note list \<Rightarrow> note list \<Rightarrow> note list" where
  "mergeNotes current imported =
     sortDesc (map_values (fold mergeStep (current @ imported) []))"

text \<open>
  The handler \<open>reader.onload\<close>, on the text of the file. The cast \<open>as Note[]\<close> is not
  checked. An element \<open>null\<close> makes \<open>n.id\<close> throw \<open>TypeError\<close> inside \<open>forEach\<close>, which
  the \<open>catch\<close> swallows before \<open>setNotes\<close> is reached. Any other element that is not a
  note would enter the collection as it is; the result is then no \<open>Note[]\<close>, and the
  model returns \<open>None\<close> for it.
\<close>

definition importNotes :: "jsontext \<Rightarrow> store \<Rightarrow> store option" where
  "importNotes file st =
     (case JSON_parse file of
        Inl e \<Rightarrow> Some st
      | Inr imported \<Rightarrow>
          (case imported of
             JArr xs \<Rightarrow>
               if JNull \<in> set xs then Some st
               else (case those (map asNote xs) of
                       None \<Rightarrow> None
                     | Some ns \<Rightarrow> Some (st\<lparr>notes := mergeNotes (notes st) ns\<rparr>))
           | _ \<Rightarrow> Some st))"

text \<open>
  What the merge keeps of an id: \<open>first_latest ns n\<close> says that \<open>n\<close> stands in \<open>ns\<close> at a
  place where every earlier note with its id is strictly older and no later note with
  its id is newer, that is, \<open>n\<close> is the first of the variants with the greatest
  \<open>updatedAt\<close>.
\<close>

definition first_latest :: "note list \<Rightarrow> note \<Rightarrow> bool" where
  "first_latest ns n \<longleftrightarrow>
     (\<exists>pre post. ns = pre @ n # post
        \<and> (\<forall>m\<in>set pre. id_note m = id_note n \<longrightarrow> updatedAt m < updatedAt n)
        \<and> (\<forall>m\<in>set post. id_note m = id_note n \<longrightarrow> updatedAt m \<le> updatedAt n))"

text \<open>
  The invariant of the \<open>forEach\<close> loop: after the notes \<open>seen\<close>, the map has one entry
  for each id seen, filed under that id, and its value is the variant kept.
\<close>

definition merge_inv :: "note list \<Rightarrow> note jsmap \<Rightarrow> bool" where
  "merge_inv seen byId \<longleftrightarrow>
     distinct (map fst byId)
     \<and> dom (map_of byId) = id_note ` set seen
     \<and> (\<forall>k v. map_of byId k = Some v \<longrightarrow> id_note v = k \<and> first_latest seen v)"

subsection \<open>Debounced save\<close>

text \<open>
  \<^verbatim>\<open>
  const saveTimer = useRef<number | null>(null);

  useEffect(() => {
    if (saveTimer.current) window.clearTimeout(saveTimer.current);
    // debounce saves to avoid excessive writes
    saveTimer.current = window.setTimeout(() => {
      saveNotesToStorage(notes);
    }, 300);
    return () => {
      if (saveTimer.current) window.clearTimeout(saveTimer.current);
    };
  }, [notes]);
  \<close>
  The effect runs in a world made of a clock in milliseconds, the platform's table of
  pending timers, the cell \<open>saveTimer\<close> and the durable store. A pending timer carries
  its handle, the time at which it is due and the collection its callback saves.
  \<open>writes\<close> records every call of \<open>saveNotesToStorage\<close> with the time it is made at.
\<close>

record timer =
  tid :: nat
  due :: nat
  job :: "note list"

record world =
  clock :: nat
  timers :: "timer list"
  issued :: nat
  saveTimer :: "nat option"
  disk :: storage
  writes :: "(nat \<times> note list) list"

text \<open>
  \<open>window.setTimeout\<close> hands out the handles 1, 2, 3, ...; \<open>window.clearTimeout\<close> drops
  the timer with the given handle if it is pending.
\<close>

definition setTimeout :: "note list \<Rightarrow> nat \<Rightarrow> world \<Rightarrow> nat \<times> world" where
  "setTimeout ns delay w =
     (let h = Suc (issued w)
      in (h, w\<lparr>timers := timers w @ [\<lparr>tid = h, due = clock w + delay, job = ns\<rparr>],
               issued := h\<rparr>))"

definition clearTimeout :: "nat \<Rightarrow> world \<Rightarrow> world" where
  "clearTimeout h w = w\<lparr>timers := filter (\<lambda>tm. tid tm \<noteq> h) (timers w)\<rparr>"

text \<open>
  \<open>if (saveTimer.current) window.clearTimeout(saveTimer.current)\<close>: the test fails on
  \<open>null\<close> and on 0.
\<close>

definition clearSaveTimer :: "world \<Rightarrow> world" where
  "clearSaveTimer w =
     (case saveTimer w of
        None \<Rightarrow> w
      | Some h \<Rightarrow> if h = 0 then w else clearTimeout h w)"

definition saveEffect :: "note list \<Rightarrow> world \<Rightarrow> world" where
  "saveEffect ns w =
     (let (h, w') = setTimeout ns 300 (clearSaveTimer w)
      in w'\<lparr>saveTimer := Some h\<rparr>)"

text \<open>A timer that is due runs its callback, at the time it is due.\<close>

definition fire :: "timer \<Rightarrow> world \<Rightarrow> world" where
  "fire tm w =
     w\<lparr>clock := due tm,
       disk := saveNotesToStorage (job tm) (disk w),
       writes := writes w @ [(due tm, job tm)]\<rparr>"

text \<open>Time passes up to \<open>t\<close>: the timers due by then fire, the earliest first.\<close>

definition advance :: "nat \<Rightarrow> world \<Rightarrow> world" where
  "advance t w =
     (fold fire (sort_key due (filter (\<lambda>tm. due tm \<le> t) (timers w))) w)
       \<lparr>timers := filter (\<lambda>tm. \<not> due tm \<le> t) (timers w), clock := t\<rparr>"

text \<open>
  A mutation at time \<open>t\<close> that sets the collection to \<open>ns\<close>: the component renders
  again, the cleanup of the previous run of the effect is called, then the effect.
\<close>

definition mutate :: "nat \<times> note list \<Rightarrow> world \<Rightarrow> world" where
  "mutate e w = saveEffect (snd e) (clearSaveTimer (advance (fst e) w))"

text \<open>
  A burst after a mutation at time \<open>t\<close>: each further mutation comes less than 300
  milliseconds after the one before it.
\<close>

fun burst :: "nat \<Rightarrow> (nat \<times> note list) list \<Rightarrow> bool" where
  "burst t [] = True"
| "burst t (e # es) = (t \<le> fst e \<and> fst e < t + 300 \<and> burst (fst e) es)"

text \<open>
  The state between two mutations of a burst: the flush scheduled by the mutation at
  time \<open>t\<close> is the one pending timer, and \<open>saveTimer\<close> holds its handle.
\<close>

definition armed :: "nat \<Rightarrow> note list \<Rightarrow> world \<Rightarrow> bool" where
  "armed t ns w \<longleftrightarrow>
     (\<exists>h. h \<noteq> 0 \<and> saveTimer w = Some h
          \<and> timers w = [\<lparr>tid = h, due = t + 300, job = ns\<rparr>])"

subsection \<open>Reading an identifier back\<close>

text \<open>
  The number an upper-case base-36 numeral stands for; used to show that the
  identifier determines the clock reading it was made from.
\<close>

definition idxU :: "char \<Rightarrow> nat" where
  "idxU c = length (takeWhile (\<lambda>d. d \<noteq> c) ''0123456789ABCDEFGHIJKLMNOPQRSTUVWXYZ'')"

definition valU :: "string \<Rightarrow> nat" where
  "valU s = foldl (\<lambda>acc c. acc * 36 + idxU c) 0 s"

section \<open>Properties\<close>

subsection \<open>Search\<close>

lemma includes_iff: "includes s q \<longleftrightarrow> (\<exists>pre post. s = pre @ q @ post)"
proof (induction s)
  case Nil
  then show ?case by auto
next
  case (Cons c s)
  show ?case
  proof
    assume "includes (c # s) q"
    then consider "take (length q) (c # s) = q" | "includes s q" by auto
    then show "\<exists>pre post. c # s = pre @ q @ post"
    proof cases
      case 1
      then have "c # s = [] @ q @ drop (length q) (c # s)"
        by (metis append_Nil append_take_drop_id)
      then show ?thesis by blast
    next
      case 2
      then obtain pre post where "s = pre @ q @ post" using Cons.IH by blast
      then have "c # s = (c # pre) @ q @ post" by simp
      then show ?thesis by blast
    qed
  next
    assume "\<exists>pre post. c # s = pre @ q @ post"
    then obtain pre post where e: "c # s = pre @ q @ post" by blast
    show "includes (c # s) q"
    proof (cases pre)
      case Nil
      with e have "take (length q) (c # s) = q" by simp
      then show ?thesis by simp
    next
      case (Cons a pre')
      with e have "s = pre' @ q @ post" by simp
      then have "includes s q" using Cons.IH by blast
      then show ?thesis by simp
    qed
  qed
qed

lemma contains_ci_iff: "contains_ci f s q \<longleftrightarrow> includes (map f s) (map f q)"
proof
  assume "contains_ci f s q"
  then obtain pre w post where "s = pre @ w @ post" "map f w = map f q"
    unfolding contains_ci_def by blast
  then have "map f s = map f pre @ map f q @ map f post"
    by simp
  then show "includes (map f s) (map f q)"
    unfolding includes_iff by blast
next
  assume "includes (map f s) (map f q)"
  then obtain pre post where e: "map f s = pre @ map f q @ post"
    unfolding includes_iff by blast
  then obtain us vs where 1: "s = us @ vs" "pre = map f us"
      "map f q @ post = map f vs"
    unfolding map_eq_append_conv by blast
  from 1(3) obtain ws xs where 2: "vs = ws @ xs" "map f q = map f ws"
    by (metis map_eq_append_conv)
  have "s = us @ ws @ xs" using 1 2 by simp
  moreover have "map f ws = map f q" using 2 by simp
  ultimately show "contains_ci f s q" unfolding contains_ci_def by blast
qed

lemma dropWhile_all: "(\<forall>c\<in>set xs. P c) \<Longrightarrow> dropWhile P xs = []"
  by (induction xs) auto

lemma dropWhile_pad: "(\<forall>c\<in>set l. P c) \<Longrightarrow> dropWhile P (l @ xs) = dropWhile P xs"
  by (induction l) auto

lemma trim_all_space: "(\<forall>c\<in>set q. isSpace c) \<Longrightarrow> trim q = []"
  unfolding trim_def by (simp only: dropWhile_all rev.simps dropWhile.simps)

lemma trim_pad:
  assumes "\<forall>c\<in>set l. isSpace c" "\<forall>c\<in>set r. isSpace c"
  shows "trim (l @ q @ r) = trim q"
proof -
  have r: "\<forall>c\<in>set (rev r). isSpace c" using assms(2) by simp
  have 1: "dropWhile isSpace (l @ q @ r) = dropWhile isSpace (q @ r)"
    using assms(1) by (rule dropWhile_pad)
  show ?thesis
  proof (cases "\<forall>c\<in>set q. isSpace c")
    case True
    then have "\<forall>c\<in>set (l @ q @ r). isSpace c" using assms by auto
    then have "trim (l @ q @ r) = []" by (rule trim_all_space)
    moreover have "trim q = []" using True by (rule trim_all_space)
    ultimately show ?thesis by simp
  next
    case False
    then have "dropWhile isSpace (q @ r) = dropWhile isSpace q @ r"
      by (auto simp: dropWhile_append)
    then have "rev (dropWhile isSpace (l @ q @ r)) = rev r @ rev (dropWhile isSpace q)"
      using 1 by simp
    then have "dropWhile isSpace (rev (dropWhile isSpace (l @ q @ r)))
               = dropWhile isSpace (rev (dropWhile isSpace q))"
      using dropWhile_pad [OF r] by simp
    then show ?thesis by (simp add: trim_def)
  qed
qed

lemma trim_decomp:
  "\<exists>l r. q = l @ trim q @ r \<and> (\<forall>c\<in>set l. isSpace c) \<and> (\<forall>c\<in>set r. isSpace c)"
proof -
  define d where "d = dropWhile isSpace q"
  define l where "l = takeWhile isSpace q"
  define r where "r = rev (takeWhile isSpace (rev d))"
  have "rev d = takeWhile isSpace (rev d) @ dropWhile isSpace (rev d)" by simp
  then have "rev (rev d) = rev (takeWhile isSpace (rev d) @ dropWhile isSpace (rev d))"
    by (rule arg_cong)
  then have "d = rev (dropWhile isSpace (rev d)) @ rev (takeWhile isSpace (rev d))"
    by (simp only: rev_rev_ident rev_append)
  then have "d = trim q @ r" by (simp only: trim_def d_def r_def)
  moreover have "q = l @ d" by (simp add: l_def d_def)
  ultimately have "q = l @ trim q @ r" by simp
  moreover have "\<forall>c\<in>set l. isSpace c" using set_takeWhileD by (fastforce simp: l_def)
  moreover have "\<forall>c\<in>set r. isSpace c" using set_takeWhileD by (fastforce simp: r_def)
  ultimately show ?thesis by blast
qed

lemma trim_trim: "trim (trim q) = trim q"
proof -
  obtain l r where "q = l @ trim q @ r" "\<forall>c\<in>set l. isSpace c" "\<forall>c\<in>set r. isSpace c"
    using trim_decomp by blast
  then show ?thesis using trim_pad by metis
qed

lemma toLowerCase_map: "toLowerCase (map f) s = map f s"
  by (simp add: toLowerCase_def)

lemma toLowerCase_Nil: "toLowerCase cm [] = []"
  by (simp add: toLowerCase_def)

lemma filteredNotes_substring:
  "filteredNotes cm st =
     (if toLowerCase cm (trim (query st)) = [] then notes st
      else filter
             (\<lambda>n. (\<exists>pre post. toLowerCase cm (title n)
                                = pre @ toLowerCase cm (trim (query st)) @ post)
                \<or> (\<exists>pre post. toLowerCase cm (content n)
                                = pre @ toLowerCase cm (trim (query st)) @ post))
             (notes st))"
  by (simp add: filteredNotes_def Let_def includes_iff)

lemma filteredNotes_per_character:
  "filteredNotes (map f) st =
     (if trim (query st) = [] then notes st
      else filter (\<lambda>n. contains_ci f (title n) (trim (query st))
                       \<or> contains_ci f (content n) (trim (query st))) (notes st))"
  by (simp add: filteredNotes_def Let_def contains_ci_iff toLowerCase_map)

text \<open>
  The search follows the case mapping on whole strings. Where the mapping of the title
  does not contain the mapping of the query, the note is not returned, also when the
  title contains the query as it is written (as a title ending in a capital sigma does
  for the query made of that sigma).
\<close>

lemma filteredNotes_whole_string:
  assumes "trim q = q" "toLowerCase cm q \<noteq> []"
    and "\<not> includes (toLowerCase cm t) (toLowerCase cm q)"
  shows "filteredNotes cm
           \<lparr>notes = [\<lparr>id_note = i, title = t, content = [], updatedAt = u\<rparr>],
            selectedId = sel, query = q\<rparr> = []"
  using assms by (simp add: filteredNotes_def Let_def toLowerCase_Nil)

text \<open>
  C7 (as amended). Search returns the whole collection, in order, when the query is
  empty once its surrounding white space is removed and it is put in lower case;
  otherwise it returns, in order, exactly the notes whose title or content, put in
  lower case, contains the trimmed query put in lower case as a substring. This holds
  for whatever case mapping the platform applies. Where the mapping goes character by
  character, these are exactly the notes whose title or content contains the trimmed
  query when case is ignored. Search is a function of the store and changes nothing.
\<close>

theorem filteredNotes_trimmed_query:
  "filteredNotes cm st =
     (if toLowerCase cm (trim (query st)) = [] then notes st
      else filter
             (\<lambda>n. (\<exists>pre post. toLowerCase cm (title n)
                                = pre @ toLowerCase cm (trim (query st)) @ post)
                \<or> (\<exists>pre post. toLowerCase cm (content n)
                                = pre @ toLowerCase cm (trim (query st)) @ post))
             (notes st))
   \<and> filteredNotes (map f) st =
     (if trim (query st) = [] then notes st
      else filter (\<lambda>n. contains_ci f (title n) (trim (query st))
                       \<or> contains_ci f (content n) (trim (query st))) (notes st))"
  using filteredNotes_substring [of cm st] filteredNotes_per_character [of f st]
  by (rule conjI)

theorem filteredNotes_trimmed_query_witness:
  "filteredNotes lowerLatin1
     \<lparr>notes = [\<lparr>id_note = ''A'', title = ''Shopping'', content = ''milk'', updatedAt = 2\<rparr>,
               \<lparr>id_note = ''B'', title = ''Work'', content = ''call Bob'', updatedAt = 1\<rparr>],
      selectedId = None, query = '' SHOP ''\<rparr>
   = [\<lparr>id_note = ''A'', title = ''Shopping'', content = ''milk'', updatedAt = 2\<rparr>]"
proof -
  have l: "lowerLatin1 = map lowerChar" by (rule ext) (simp add: lowerLatin1_def)
  show ?thesis
    unfolding l filteredNotes_trimmed_query [THEN conjunct2] contains_ci_iff by code_simp
qed

text \<open>
  The claim as stated fails on a query with surrounding white space: the query
  \<open>'' x''\<close> is not empty and occurs in neither field of the note, which is returned.
\<close>

theorem filteredNotes_untrimmed_counterexample:
  "filteredNotes lowerLatin1
     \<lparr>notes = [\<lparr>id_note = ''A'', title = ''x'', content = [], updatedAt = 1\<rparr>],
      selectedId = None, query = '' x''\<rparr>
     = [\<lparr>id_note = ''A'', title = ''x'', content = [], updatedAt = 1\<rparr>]
   \<and> '' x'' \<noteq> []
   \<and> \<not> contains_ci lowerChar ''x'' '' x'' \<and> \<not> contains_ci lowerChar [] '' x''"
  unfolding contains_ci_iff by code_simp

text \<open>
  C10. Search trims the query before matching: a query made of white space only
  returns the whole collection; white space around a query does not change the
  result; a query and its trimmed form return the same notes. This holds for whatever
  case mapping the platform applies.
\<close>

theorem filteredNotes_trims_query:
  "((\<forall>c\<in>set q. isSpace c) \<longrightarrow> filteredNotes cm (st\<lparr>query := q\<rparr>) = notes st)
   \<and> ((\<forall>c\<in>set l. isSpace c) \<and> (\<forall>c\<in>set r. isSpace c) \<longrightarrow>
        filteredNotes cm (st\<lparr>query := l @ q @ r\<rparr>) = filteredNotes cm (st\<lparr>query := q\<rparr>))
   \<and> filteredNotes cm (st\<lparr>query := q\<rparr>) = filteredNotes cm (st\<lparr>query := trim q\<rparr>)"
  by (simp add: filteredNotes_def Let_def trim_all_space trim_pad trim_trim toLowerCase_Nil)

theorem filteredNotes_trims_query_witness:
  "filteredNotes lowerLatin1
     \<lparr>notes = [\<lparr>id_note = ''A'', title = ''x'', content = [], updatedAt = 1\<rparr>],
      selectedId = None, query = ''  ''\<rparr>
     = [\<lparr>id_note = ''A'', title = ''x'', content = [], updatedAt = 1\<rparr>]
   \<and> filteredNotes lowerLatin1
       \<lparr>notes = [\<lparr>id_note = ''A'', title = ''x'', content = [], updatedAt = 1\<rparr>],
        selectedId = None, query = '' y ''\<rparr>
     = filteredNotes lowerLatin1
         \<lparr>notes = [\<lparr>id_note = ''A'', title = ''x'', content = [], updatedAt = 1\<rparr>],
          selectedId = None, query = ''y''\<rparr>"
proof -
  have h: "\<forall>c\<in>set ''  ''. isSpace c" and k: "\<forall>c\<in>set '' ''. isSpace c"
    by code_simp+
  show ?thesis
    using h k
      filteredNotes_trims_query
        [of "''  ''" lowerLatin1
            "\<lparr>notes = [\<lparr>id_note = ''A'', title = ''x'', content = [], updatedAt = 1\<rparr>],
              selectedId = None, query = []\<rparr>" "[]" "[]"]
      filteredNotes_trims_query
        [of "''y''" lowerLatin1
            "\<lparr>notes = [\<lparr>id_note = ''A'', title = ''x'', content = [], updatedAt = 1\<rparr>],
              selectedId = None, query = []\<rparr>" "'' ''" "'' ''"]
    by simp
qed

subsection \<open>Sorting\<close>

lemma sorted_desc_sortDesc: "sorted_desc (sortDesc xs)"
proof -
  have "sorted (map (\<lambda>n. - updatedAt n) (sortDesc xs))"
    unfolding sortDesc_def by (rule sorted_sort_key)
  then show ?thesis
    unfolding sorted_desc_def sorted_map by (simp add: sorted_wrt_iff_nth_less)
qed

lemma sorted_desc_Cons:
  "sorted_desc (x # xs) \<longleftrightarrow> (\<forall>n\<in>set xs. updatedAt n \<le> updatedAt x) \<and> sorted_desc xs"
  by (simp add: sorted_desc_def)

lemma sorted_desc_filter: "sorted_desc xs \<Longrightarrow> sorted_desc (filter P xs)"
  unfolding sorted_desc_def by (rule sorted_wrt_filter)

lemma sortDesc_id: "sorted_desc xs \<Longrightarrow> sortDesc xs = xs"
proof -
  assume "sorted_desc xs"
  then have "sorted (map (\<lambda>n. - updatedAt n) xs)"
    unfolding sorted_desc_def sorted_map by (simp add: sorted_wrt_iff_nth_less)
  then show ?thesis unfolding sortDesc_def by (rule sort_key_id_if_sorted)
qed

lemma mset_sortDesc: "mset (sortDesc xs) = mset xs"
  by (simp add: sortDesc_def)

lemma set_sortDesc: "set (sortDesc xs) = set xs"
  by (simp add: sortDesc_def)

subsection \<open>Import, case by case\<close>

lemma importNotes_cases:
  "importNotes file st =
     (case file of
        Malformed s \<Rightarrow> Some st
      | Json j \<Rightarrow>
          (case j of
             JArr xs \<Rightarrow>
               if JNull \<in> set xs then Some st
               else map_option (\<lambda>ns. st\<lparr>notes := mergeNotes (notes st) ns\<rparr>) (those (map asNote xs))
           | _ \<Rightarrow> Some st))"
proof (cases "file")
  case (Malformed s)
  then show ?thesis by (simp add: importNotes_def)
next
  case (Json j)
  then show ?thesis by (cases j) (simp_all add: importNotes_def split: option.split)
qed

lemma importNotes_malformed:
  assumes "\<forall>xs. JSON_parse file \<noteq> Inr (JArr xs)"
  shows "importNotes file st = Some st"
proof (cases "file")
  case (Malformed s)
  then show ?thesis by (simp add: importNotes_cases)
next
  case (Json j)
  with assms have "\<forall>xs. j \<noteq> JArr xs" by simp
  then show ?thesis using Json by (cases j) (simp_all add: importNotes_cases)
qed

lemma create_sorted:
  "sorted_desc (notes (createNote i f now st)) \<longleftrightarrow>
     sorted_desc (notes st) \<and> (\<forall>n\<in>set (notes st). updatedAt n \<le> now)"
  by (auto simp: createNote_def Let_def sorted_desc_Cons)

lemma delete_sorted: "sorted_desc (notes st) \<Longrightarrow> sorted_desc (notes (deleteNote i st))"
  by (simp add: deleteNote_def sorted_desc_filter)

lemma update_sorted: 
  "selectedNote st \<noteq> None \<or> sorted_desc (notes st) \<Longrightarrow> sorted_desc (notes (updateSelected p now st))"
  by (cases "selectedNote st") (auto simp: updateSelected_def sorted_desc_sortDesc)

lemma import_sorted:
  assumes "importNotes file st = Some st'"
  shows "st' = st \<or> sorted_desc (notes st')"
proof (cases "file")
  case (Malformed s)
  then show ?thesis using assms by (simp add: importNotes_cases)
next
  case (Json j)
  then show ?thesis using assms
    by (cases j) (auto simp: importNotes_cases mergeNotes_def sorted_desc_sortDesc split: if_splits)
qed

subsection \<open>Update\<close>

lemma selectedNote_Some:
  "selectedNote st = Some sel \<Longrightarrow> selectedId st = Some (id_note sel) \<and> sel \<in> set (notes st)"
  unfolding selectedNote_def find_Some_iff by (metis nth_mem)

lemma applyPartial_id: "id_note (applyPartial p now n) = id_note n"
  by (simp add: applyPartial_def)

lemma mset_update_notes:
  "selectedNote st = Some sel \<Longrightarrow>
   mset (notes (updateSelected p now st))
     = image_mset (\<lambda>n. if id_note n = id_note sel then applyPartial p now n else n) (mset (notes st))"
  by (simp add: updateSelected_def mset_sortDesc)

lemma others_image:
  "filter_mset (\<lambda>n. id_note n \<noteq> s)
      (image_mset (\<lambda>n. if id_note n = s then applyPartial p now n else n) (mset xs))
   = filter_mset (\<lambda>n. id_note n \<noteq> s) (mset xs)"
  by (induction xs) (simp_all add: applyPartial_id)

lemma selected_image:
  "filter_mset (\<lambda>n. id_note n = s)
      (image_mset (\<lambda>n. if id_note n = s then applyPartial p now n else n) (mset xs))
   = image_mset (applyPartial p now) (filter_mset (\<lambda>n. id_note n = s) (mset xs))"
  by (induction xs) (simp_all add: applyPartial_id)

lemma update_others:
  assumes "selectedNote st = Some sel"
  shows "filter_mset (\<lambda>n. id_note n \<noteq> id_note sel) (mset (notes (updateSelected p now st)))
         = filter_mset (\<lambda>n. id_note n \<noteq> id_note sel) (mset (notes st))"
  unfolding mset_update_notes [OF assms] by (rule others_image)

lemma update_selected:
  assumes "selectedNote st = Some sel"
  shows "filter_mset (\<lambda>n. id_note n = id_note sel) (mset (notes (updateSelected p now st)))
         = image_mset (applyPartial p now) (filter_mset (\<lambda>n. id_note n = id_note sel) (mset (notes st)))"
  unfolding mset_update_notes [OF assms] by (rule selected_image)

lemma distinct_filter_id:
  "distinct (map id_note xs) \<Longrightarrow> x \<in> set xs \<Longrightarrow>
   filter_mset (\<lambda>n. id_note n = id_note x) (mset xs) = {#x#}"
proof (induction xs)
  case Nil
  then show ?case by simp
next
  case (Cons a xs)
  show ?case
  proof (cases "a = x")
    case True
    have "id_note x \<notin> id_note ` set xs" using Cons.prems True by simp
    then have "\<forall>n\<in>set xs. id_note n \<noteq> id_note x" by (metis imageI)
    then have "filter_mset (\<lambda>n. id_note n = id_note x) (mset xs) = {#}"
      by simp
    then show ?thesis using True by simp
  next
    case False
    then have "x \<in> set xs" using Cons.prems by simp
    moreover have "id_note a \<notin> id_note ` set xs" using Cons.prems by simp
    then have "id_note a \<noteq> id_note x" using \<open>x \<in> set xs\<close> by (metis imageI)
    ultimately show ?thesis using Cons by simp
  qed
qed

lemma update_distinct:
  assumes "selectedNote st = Some sel" "distinct (map id_note (notes st))"
  shows "mset (notes (updateSelected p now st))
         = mset (notes st) - {#sel#} + {#applyPartial p now sel#}"
proof -
  let ?P = "\<lambda>n. id_note n = id_note sel"
  let ?M = "mset (notes st)" and ?M' = "mset (notes (updateSelected p now st))"
  have sel: "sel \<in> set (notes st)" using selectedNote_Some [OF assms(1)] by simp
  have one: "filter_mset ?P ?M = {#sel#}" using distinct_filter_id [OF assms(2) sel] .
  have "?M' = filter_mset ?P ?M' + filter_mset (\<lambda>n. \<not> ?P n) ?M'"
    by (rule multiset_partition)
  also have "\<dots> = {#applyPartial p now sel#} + filter_mset (\<lambda>n. \<not> ?P n) ?M"
    using update_others [OF assms(1), of p now] update_selected [OF assms(1), of p now] one by simp
  finally have 1: "?M' = {#applyPartial p now sel#} + filter_mset (\<lambda>n. \<not> ?P n) ?M" .
  have "?M = {#sel#} + filter_mset (\<lambda>n. \<not> ?P n) ?M"
    using multiset_partition [of ?M ?P] one by simp
  then have "filter_mset (\<lambda>n. \<not> ?P n) ?M = ?M - {#sel#}"
    by (metis add_diff_cancel_left')
  with 1 show ?thesis by simp
qed

text \<open>
  C6. \<open>updateSelected\<close> changes nothing when no note is selected. Otherwise the notes
  whose id is not the selected one are the same as before, the note with the selected
  id has the given fields replaced and \<open>updatedAt = now\<close>, and the selection is kept;
  when ids are unique, the collection changes in the selected note alone.
\<close>

theorem updateSelected_frame:
  "(selectedNote st = None \<longrightarrow> updateSelected p now st = st)
   \<and> (selectedNote st = Some sel \<longrightarrow>
        selectedId st = Some (id_note sel) \<and> sel \<in> set (notes st)
      \<and> selectedId (updateSelected p now st) = selectedId st
      \<and> query (updateSelected p now st) = query st
      \<and> filter_mset (\<lambda>n. id_note n \<noteq> id_note sel) (mset (notes (updateSelected p now st)))
          = filter_mset (\<lambda>n. id_note n \<noteq> id_note sel) (mset (notes st))
      \<and> filter_mset (\<lambda>n. id_note n = id_note sel) (mset (notes (updateSelected p now st)))
          = image_mset
              (\<lambda>n. n\<lparr>title := (case title_p p of None \<Rightarrow> title n | Some t \<Rightarrow> t),
                      content := (case content_p p of None \<Rightarrow> content n | Some c \<Rightarrow> c),
                      updatedAt := now\<rparr>)
              (filter_mset (\<lambda>n. id_note n = id_note sel) (mset (notes st)))
      \<and> (distinct (map id_note (notes st)) \<longrightarrow>
            mset (notes (updateSelected p now st))
            = mset (notes st) - {#sel#}
              + {#sel\<lparr>title := (case title_p p of None \<Rightarrow> title sel | Some t \<Rightarrow> t),
                       content := (case content_p p of None \<Rightarrow> content sel | Some c \<Rightarrow> c),
                       updatedAt := now\<rparr>#}))"
proof -
  have ap: "applyPartial p now
            = (\<lambda>n. n\<lparr>title := (case title_p p of None \<Rightarrow> title n | Some t \<Rightarrow> t),
                      content := (case content_p p of None \<Rightarrow> content n | Some c \<Rightarrow> c),
                      updatedAt := now\<rparr>)"
    by (rule ext) (simp add: applyPartial_def)
  have none: "updateSelected p now st = st" if "selectedNote st = None"
    using that by (simp add: updateSelected_def)
  have sel: "selectedId (updateSelected p now st) = selectedId st
             \<and> query (updateSelected p now st) = query st"
    by (cases "selectedNote st") (simp_all add: updateSelected_def)
  show ?thesis
    using none sel selectedNote_Some [of st sel] update_others [of st sel p now]
      update_selected [of st sel p now] update_distinct [of st sel p now]
    unfolding ap by blast
qed

theorem updateSelected_frame_witness:
  "mset (notes (updateSelected \<lparr>title_p = Some ''z'', content_p = None\<rparr> 3000
      \<lparr>notes = [\<lparr>id_note = ''A'', title = ''x'', content = [], updatedAt = 2000\<rparr>,
                \<lparr>id_note = ''B'', title = ''y'', content = [], updatedAt = 1000\<rparr>],
       selectedId = Some ''B'', query = []\<rparr>))
   = {#\<lparr>id_note = ''A'', title = ''x'', content = [], updatedAt = 2000\<rparr>,
       \<lparr>id_note = ''B'', title = ''z'', content = [], updatedAt = 3000\<rparr>#}
   \<and> updateSelected \<lparr>title_p = Some ''z'', content_p = None\<rparr> 3000
      \<lparr>notes = [\<lparr>id_note = ''A'', title = ''x'', content = [], updatedAt = 2000\<rparr>],
       selectedId = None, query = []\<rparr>
     = \<lparr>notes = [\<lparr>id_note = ''A'', title = ''x'', content = [], updatedAt = 2000\<rparr>],
        selectedId = None, query = []\<rparr>"
proof -
  let ?A = "\<lparr>id_note = ''A'', title = ''x'', content = [], updatedAt = 2000\<rparr> :: note"
  let ?B = "\<lparr>id_note = ''B'', title = ''y'', content = [], updatedAt = 1000\<rparr> :: note"
  let ?p = "\<lparr>title_p = Some ''z'', content_p = None\<rparr>"
  let ?st = "\<lparr>notes = [?A, ?B], selectedId = Some ''B'', query = []\<rparr>"
  let ?s0 = "\<lparr>notes = [?A], selectedId = None, query = []\<rparr>"
  have 1: "selectedNote ?st = Some ?B" by (simp add: selectedNote_def)
  have 2: "distinct (map id_note (notes ?st))" by simp
  have 3: "selectedNote ?s0 = None" by (simp add: selectedNote_def)
  have "mset (notes (updateSelected ?p 3000 ?st))
        = mset (notes ?st) - {#?B#} + {#?B\<lparr>title := ''z'', content := [], updatedAt := 3000\<rparr>#}"
    using updateSelected_frame [of ?st ?p 3000 ?B] 1 2 by simp
  moreover have "updateSelected ?p 3000 ?s0 = ?s0"
    using updateSelected_frame [of ?s0 ?p 3000] 3 by blast
  ultimately show ?thesis by simp
qed

subsection \<open>Create\<close>

lemma upper_alphabet:
  "map upperChar ''0123456789abcdefghijklmnopqrstuvwxyz'' = ''0123456789ABCDEFGHIJKLMNOPQRSTUVWXYZ''"
  by code_simp

lemma distinct_alphabet: "distinct ''0123456789ABCDEFGHIJKLMNOPQRSTUVWXYZ''"
  by simp

lemma idx_nth:
  assumes "distinct xs" "i < length xs"
  shows "length (takeWhile (\<lambda>d. d \<noteq> xs ! i) xs) = i"
proof -
  let ?k = "length (takeWhile (\<lambda>d. d \<noteq> xs ! i) xs)"
  have "i \<le> ?k" 
    using assms by (intro length_takeWhile_less_P_nth) (auto simp: nth_eq_iff_index_eq)
  moreover have "?k \<le> i"
  proof (rule ccontr)
    assume "\<not> ?k \<le> i"
    then have "i < ?k" by simp
    then have "takeWhile (\<lambda>d. d \<noteq> xs ! i) xs ! i \<in> set (takeWhile (\<lambda>d. d \<noteq> xs ! i) xs)"
      by simp
    then have "takeWhile (\<lambda>d. d \<noteq> xs ! i) xs ! i \<noteq> xs ! i"
      by (metis (full_types) set_takeWhileD)
    then show False using \<open>i < ?k\<close> by (simp add: takeWhile_nth)
  qed
  ultimately show ?thesis by simp
qed

lemma idxU_digit: "idxU (upperChar (digit36 d)) = d mod 36"
proof -
  have "upperChar (digit36 d) = map upperChar ''0123456789abcdefghijklmnopqrstuvwxyz'' ! (d mod 36)"
    unfolding digit36_def by (subst nth_map) simp_all
  then have "upperChar (digit36 d) = ''0123456789ABCDEFGHIJKLMNOPQRSTUVWXYZ'' ! (d mod 36)"
    by (simp only: upper_alphabet)
  then show ?thesis
    unfolding idxU_def using idx_nth [OF distinct_alphabet, of "d mod 36"] by simp
qed

lemma valU_snoc: "valU (s @ [c]) = valU s * 36 + idxU c"
  by (simp add: valU_def)

lemma valU_digits36: "valU (toUpperCase (digits36 n)) = n"
proof (induction n rule: digits36.induct)
  case (1 n)
  show ?case
  proof (cases "n < 36")
    case True
    then show ?thesis
      by (subst digits36.simps) (simp add: toUpperCase_def valU_def idxU_digit)
  next
    case False
    then have "valU (toUpperCase (digits36 (n div 36))) = n div 36" using 1 by simp
    then show ?thesis using False
      by (subst digits36.simps) (simp add: toUpperCase_def valU_snoc idxU_digit)
  qed
qed

lemma generateId_time_inj:
  assumes "0 \<le> t" "0 \<le> t'" "length (toString36 t) = length (toString36 t')"
    and "generateId t f = generateId t' f'"
  shows "t = t'"
proof -
  have "toUpperCase (digits36 (nat t)) @ toUpperCase (slice 2 8 (randomString36 f))
        = toUpperCase (digits36 (nat t')) @ toUpperCase (slice 2 8 (randomString36 f'))"
    using assms by (simp add: generateId_def toString36_def toUpperCase_def)
  moreover have "length (toUpperCase (digits36 (nat t))) = length (toUpperCase (digits36 (nat t')))"
    using assms by (simp add: toString36_def toUpperCase_def)
  ultimately have "toUpperCase (digits36 (nat t)) = toUpperCase (digits36 (nat t'))"
    by simp
  then have "valU (toUpperCase (digits36 (nat t))) = valU (toUpperCase (digits36 (nat t')))"
    by simp
  then have "nat t = nat t'" by (simp only: valU_digits36)
  then show ?thesis using assms by simp
qed

lemma generateId_nonempty: "generateId t f \<noteq> []"
proof -
  have "digits36 n \<noteq> []" for n by (subst digits36.simps) simp
  then show ?thesis by (simp add: generateId_def toString36_def toUpperCase_def)
qed

lemma selectedNote_create:
  "selectedNote (createNote idNow frac now st)
     = Some \<lparr>id_note = generateId idNow frac, title = ''Untitled'', content = [], updatedAt = now\<rparr>"
  by (simp add: selectedNote_def createNote_def Let_def)

lemma autoSelect_create: "autoSelect (createNote idNow frac now st) = createNote idNow frac now st"
  by (simp add: autoSelect_def createNote_def Let_def generateId_nonempty)

text \<open>
  C5 (as amended). \<open>createNote\<close> puts a note with title "Untitled", empty content and
  \<open>updatedAt = now\<close> at the head of the collection and selects it; the selection
  survives the auto-select effect. Its id is the generated string, which is not
  compared with the ids in the collection: it is absent from the collection when every
  id there was generated from another clock reading with as many base-36 digits.
\<close>

theorem createNote_new_note:
  "notes (createNote idNow frac now st)
     = \<lparr>id_note = generateId idNow frac, title = ''Untitled'', content = [], updatedAt = now\<rparr>
       # notes st
   \<and> selectedId (createNote idNow frac now st) = Some (generateId idNow frac)
   \<and> selectedNote (createNote idNow frac now st)
       = Some \<lparr>id_note = generateId idNow frac, title = ''Untitled'', content = [], updatedAt = now\<rparr>
   \<and> autoSelect (createNote idNow frac now st) = createNote idNow frac now st
   \<and> (0 \<le> idNow \<and>
        (\<forall>n\<in>set (notes st). \<exists>t f. 0 \<le> t \<and> t \<noteq> idNow
              \<and> length (toString36 t) = length (toString36 idNow)
              \<and> id_note n = generateId t f)
        \<longrightarrow> generateId idNow frac \<notin> id_note ` set (notes st))"
proof -
  have "generateId idNow frac \<notin> id_note ` set (notes st)"
    if a: "0 \<le> idNow"
      and b: "\<forall>n\<in>set (notes st). \<exists>t f. 0 \<le> t \<and> t \<noteq> idNow
              \<and> length (toString36 t) = length (toString36 idNow)
              \<and> id_note n = generateId t f"
  proof
    assume "generateId idNow frac \<in> id_note ` set (notes st)"
    then obtain n where n: "n \<in> set (notes st)" "id_note n = generateId idNow frac" by auto
    then obtain t f where t: "0 \<le> t" "t \<noteq> idNow"
        "length (toString36 t) = length (toString36 idNow)" "id_note n = generateId t f"
      using b by blast
    then have "t = idNow" using generateId_time_inj [of t idNow f frac] a n(2) by simp
    then show False using t(2) by simp
  qed
  then show ?thesis
    by (simp add: selectedNote_create autoSelect_create) (simp add: createNote_def Let_def)
qed

theorem createNote_new_note_witness:
  "generateId 1001 [1, 2, 3]
     \<notin> id_note ` set (notes (createNote 1000 [1, 2, 3] 1000
                                  \<lparr>notes = [], selectedId = None, query = []\<rparr>))"
proof -
  let ?st = "createNote 1000 [1, 2, 3] 1000 \<lparr>notes = [], selectedId = None, query = []\<rparr>"
  have len: "length (toString36 1000) = length (toString36 1001)"
    by code_simp
  have "\<forall>n\<in>set (notes ?st). \<exists>t f. 0 \<le> t \<and> t \<noteq> 1001
              \<and> length (toString36 t) = length (toString36 1001)
              \<and> id_note n = generateId t f"
  proof -
    have "\<exists>t f. 0 \<le> t \<and> t \<noteq> 1001
              \<and> length (toString36 t) = length (toString36 1001)
              \<and> generateId 1000 [1, 2, 3] = generateId t f"
      by (rule exI [of _ 1000], rule exI [of _ "[1, 2, 3]"]) (simp add: len)
    then show ?thesis by (simp add: createNote_def Let_def)
  qed
  moreover have "(0::int) \<le> 1001" by simp
  ultimately show ?thesis
    using createNote_new_note [of 1001 "[1, 2, 3]" 0 ?st,
        THEN conjunct2, THEN conjunct2, THEN conjunct2, THEN conjunct2]
    by blast
qed

text \<open>
  The claim as stated fails: a second \<open>createNote\<close> that reads the same clock value and
  the same random digits yields the id of the note already there.
\<close>

theorem createNote_collision_counterexample:
  "id_note (hd (notes (createNote 1000 [1, 2, 3] 1000
                   (createNote 1000 [1, 2, 3] 1000
                      \<lparr>notes = [], selectedId = None, query = []\<rparr>))))
   \<in> id_note ` set (notes (createNote 1000 [1, 2, 3] 1000
                      \<lparr>notes = [], selectedId = None, query = []\<rparr>))"
  by (simp add: createNote_def Let_def)

subsection \<open>Order of the collection, malformed imports\<close>

text \<open>
  C8. When the text of the imported file does not parse, or parses to a value that is
  not an array, \<open>importNotes\<close> returns the store as it was: nothing is merged, and the
  error is caught.
\<close>

theorem importNotes_malformed_unchanged:
  "(\<forall>xs. JSON_parse file \<noteq> Inr (JArr xs)) \<Longrightarrow> importNotes file st = Some st"
  by (rule importNotes_malformed)

theorem importNotes_malformed_unchanged_witness:
  "importNotes (Malformed ''[{oops'')
       \<lparr>notes = [\<lparr>id_note = ''A'', title = ''x'', content = [], updatedAt = 1\<rparr>],
        selectedId = None, query = []\<rparr>
     = Some \<lparr>notes = [\<lparr>id_note = ''A'', title = ''x'', content = [], updatedAt = 1\<rparr>],
             selectedId = None, query = []\<rparr>
   \<and> importNotes (Json (JObj [(''id'', JStr ''B'')]))
       \<lparr>notes = [\<lparr>id_note = ''A'', title = ''x'', content = [], updatedAt = 1\<rparr>],
        selectedId = None, query = []\<rparr>
     = Some \<lparr>notes = [\<lparr>id_note = ''A'', title = ''x'', content = [], updatedAt = 1\<rparr>],
             selectedId = None, query = []\<rparr>"
proof -
  have "\<forall>xs. JSON_parse (Malformed ''[{oops'') \<noteq> Inr (JArr xs)" by simp
  moreover have "\<forall>xs. JSON_parse (Json (JObj [(''id'', JStr ''B'')])) \<noteq> Inr (JArr xs)" by simp
  ultimately show ?thesis
    using importNotes_malformed_unchanged [of "Malformed ''[{oops''"]
      importNotes_malformed_unchanged [of "Json (JObj [(''id'', JStr ''B'')])"]
    by blast
qed

text \<open>
  C2 (as amended). \<open>updateSelected\<close> and a merging import leave the collection sorted
  by descending \<open>updatedAt\<close>, \<open>deleteNote\<close> keeps it sorted, and \<open>createNote\<close> keeps it
  sorted exactly when no note of the collection has an \<open>updatedAt\<close> later than \<open>now\<close>.
\<close>

theorem mutations_keep_sorted:
  "(sorted_desc (notes (createNote idNow frac now st)) \<longleftrightarrow>
      sorted_desc (notes st) \<and> (\<forall>n\<in>set (notes st). updatedAt n \<le> now))
   \<and> (selectedNote st \<noteq> None \<or> sorted_desc (notes st) \<longrightarrow>
        sorted_desc (notes (updateSelected p now st)))
   \<and> (sorted_desc (notes st) \<longrightarrow> sorted_desc (notes (deleteNote i st)))
   \<and> (importNotes file st = Some st' \<and> (st' \<noteq> st \<or> sorted_desc (notes st)) \<longrightarrow>
        sorted_desc (notes st'))"
  using create_sorted [of idNow frac now st] update_sorted [of st p now]
    delete_sorted [of st i] import_sorted [of "file" st st']
  by blast

theorem mutations_keep_sorted_witness:
  "sorted_desc (notes (createNote 3000 [7] 3000
      \<lparr>notes = [\<lparr>id_note = ''A'', title = ''x'', content = [], updatedAt = 2000\<rparr>,
                \<lparr>id_note = ''B'', title = ''y'', content = [], updatedAt = 1000\<rparr>],
       selectedId = Some ''B'', query = []\<rparr>))
   \<and> sorted_desc (notes (updateSelected \<lparr>title_p = Some ''z'', content_p = None\<rparr> 3000
      \<lparr>notes = [\<lparr>id_note = ''A'', title = ''x'', content = [], updatedAt = 2000\<rparr>,
                \<lparr>id_note = ''B'', title = ''y'', content = [], updatedAt = 1000\<rparr>],
       selectedId = Some ''B'', query = []\<rparr>))
   \<and> sorted_desc (notes (deleteNote ''A''
      \<lparr>notes = [\<lparr>id_note = ''A'', title = ''x'', content = [], updatedAt = 2000\<rparr>,
                \<lparr>id_note = ''B'', title = ''y'', content = [], updatedAt = 1000\<rparr>],
       selectedId = Some ''B'', query = []\<rparr>))"
proof -
  let ?st = "\<lparr>notes = [\<lparr>id_note = ''A'', title = ''x'', content = [], updatedAt = 2000\<rparr>,
                \<lparr>id_note = ''B'', title = ''y'', content = [], updatedAt = 1000\<rparr>],
       selectedId = Some ''B'', query = []\<rparr>"
  have s: "sorted_desc (notes ?st)" by (simp add: sorted_desc_def)
  have b: "\<forall>n\<in>set (notes ?st). updatedAt n \<le> 3000" by simp
  show ?thesis
    using s b mutations_keep_sorted [of 3000 "[7]" 3000 ?st "\<lparr>title_p = Some ''z'', content_p = None\<rparr>" "''A''" "Malformed []" ?st]
    by blast
qed

text \<open>
  The claim as stated fails on a reachable collection: after the import of a note
  whose \<open>updatedAt\<close> lies ahead of the clock, \<open>createNote\<close> puts the new, older note
  in front of it.
\<close>

theorem create_after_import_counterexample:
  "importNotes
       (Json (JArr [noteJson \<lparr>id_note = ''B'', title = ''later'', content = [], updatedAt = 9000\<rparr>]))
       \<lparr>notes = [], selectedId = None, query = []\<rparr>
     = Some \<lparr>notes = [\<lparr>id_note = ''B'', title = ''later'', content = [], updatedAt = 9000\<rparr>],
             selectedId = None, query = []\<rparr>
   \<and> sorted_desc [\<lparr>id_note = ''B'', title = ''later'', content = [], updatedAt = 9000\<rparr>]
   \<and> \<not> sorted_desc (notes (createNote 1000 [7] 1000
         \<lparr>notes = [\<lparr>id_note = ''B'', title = ''later'', content = [], updatedAt = 9000\<rparr>],
          selectedId = None, query = []\<rparr>))"
  by (simp add: importNotes_cases noteJson_def asNote_def field_def mergeNotes_def mergeStep_def
      map_get_def map_values_def sortDesc_def sorted_desc_def createNote_def Let_def)

subsection \<open>Storage adapter\<close>

lemma insort_key_map:
  "insort_key f (g x) (map g xs) = map g (insort_key (\<lambda>y. f (g y)) x xs)"
  by (induction xs) simp_all

lemma sort_key_map: "sort_key f (map g xs) = map g (sort_key (\<lambda>y. f (g y)) xs)"
  by (induction xs) (simp_all add: insort_key_map)

lemma sortDesc_untyped: "sortDesc (map untyped ns) = map untyped (sortDesc ns)"
  by (simp add: sortDesc_def sort_key_map untyped_def)

lemma field_noteJson:
  "field (noteJson n) ''id'' = Some (JStr (id_note n))"
  "field (noteJson n) ''title'' = Some (JStr (title n))"
  "field (noteJson n) ''content'' = Some (JStr (content n))"
  "field (noteJson n) ''updatedAt'' = Some (JNum (updatedAt n))"
  by (simp_all add: field_def noteJson_def)

lemma normalize_noteJson: "normalize now (noteJson n) = untyped n"
  by (simp add: normalize_def field_noteJson untyped_def)

lemma asNote_noteJson: "asNote (noteJson n) = Some n"
  by (simp add: asNote_def field_noteJson)

lemma hasStringId_Inl: "hasStringId v = Inl e \<longleftrightarrow> v = JNull \<and> e = TypeError"
  by (cases v) (auto simp: hasStringId_def)

lemma hasStringId_Inr:
  "v \<noteq> JNull \<Longrightarrow> hasStringId v = Inr (\<exists>i. field v ''id'' = Some (JStr i))"
  by (cases v) (auto simp: hasStringId_def field_def split: option.splits json.splits)

lemma filterE_null: "JNull \<in> set xs \<Longrightarrow> filterE hasStringId xs = Inl TypeError"
proof (induction xs)
  case Nil
  then show ?case by simp
next
  case (Cons v xs)
  show ?case
  proof (cases "v = JNull")
    case True
    then show ?thesis by (simp add: hasStringId_def)
  next
    case False
    then have "filterE hasStringId xs = Inl TypeError" using Cons by auto
    then show ?thesis using False by (simp add: hasStringId_Inr)
  qed
qed

lemma filterE_no_null:
  "JNull \<notin> set xs \<Longrightarrow>
   filterE hasStringId xs = Inr (filter (\<lambda>v. \<exists>i. field v ''id'' = Some (JStr i)) xs)"
proof (induction xs)
  case Nil
  then show ?case by simp
next
  case (Cons v xs)
  then have "v \<noteq> JNull" and "JNull \<notin> set xs" by auto
  then show ?case using Cons.IH by (simp add: hasStringId_Inr)
qed

lemma parseNotes_array:
  "parseNotes now (Json (JArr xs)) =
     (if JNull \<in> set xs then Inl TypeError
      else Inr (sortDesc (map (normalize now)
                  (filter (\<lambda>v. \<exists>i. field v ''id'' = Some (JStr i)) xs))))"
  by (simp add: parseNotes_def filterE_null filterE_no_null)

lemma parseNotes_not_array:
  "\<forall>xs. j \<noteq> JArr xs \<Longrightarrow> parseNotes now (Json j) = Inr []"
  by (cases j) (simp_all add: parseNotes_def)

lemma parseNotes_malformed: "parseNotes now (Malformed s) = Inl SyntaxError"
  by (simp add: parseNotes_def)

lemma load_cases:
  "loadNotesFromStorage now st =
     (if \<not> hasWindow st then []
      else case items st STORAGE_KEY of
             None \<Rightarrow> []
           | Some (Malformed s) \<Rightarrow> []
           | Some (Json j) \<Rightarrow>
               (case j of
                  JArr xs \<Rightarrow>
                    if JNull \<in> set xs then []
                    else sortDesc (map (normalize now)
                           (filter (\<lambda>v. \<exists>i. field v ''id'' = Some (JStr i)) xs))
                | _ \<Rightarrow> []))"
proof (cases "items st STORAGE_KEY")
  case None
  then show ?thesis by (simp add: loadNotesFromStorage_def)
next
  case (Some raw)
  show ?thesis
  proof (cases raw)
    case (Malformed s)
    then show ?thesis using Some by (simp add: loadNotesFromStorage_def parseNotes_malformed)
  next
    case (Json j)
    then show ?thesis using Some
      by (cases j) (simp_all add: loadNotesFromStorage_def parseNotes_array parseNotes_not_array)
  qed
qed

lemma sorted_desc_Nil: "sorted_desc []"
  by (simp add: sorted_desc_def)

lemma load_sorted: "sorted_desc (loadNotesFromStorage now st)"
proof (cases "items st STORAGE_KEY")
  case None
  then show ?thesis by (simp add: load_cases sorted_desc_Nil)
next
  case (Some raw)
  show ?thesis
  proof (cases raw)
    case (Malformed s)
    then show ?thesis using Some by (simp add: load_cases sorted_desc_Nil)
  next
    case (Json j)
    then show ?thesis using Some
      by (cases j) (simp_all add: load_cases sorted_desc_Nil sorted_desc_sortDesc)
  qed
qed

lemma normalize_fields:
  assumes "field v ''id'' = Some (JStr i)"
  shows "id_note (normalize now v) = i"
    and "title (normalize now v)
         = (case field v ''title'' of None \<Rightarrow> JStr ''Untitled'' | Some JNull \<Rightarrow> JStr ''Untitled''
            | Some t \<Rightarrow> t)"
    and "content (normalize now v)
         = (case field v ''content'' of None \<Rightarrow> JStr [] | Some JNull \<Rightarrow> JStr []
            | Some c \<Rightarrow> c)"
    and "updatedAt (normalize now v)
         = (case field v ''updatedAt'' of Some (JNum u) \<Rightarrow> u | _ \<Rightarrow> now)"
  using assms by (simp_all add: normalize_def split: option.split json.split)

text \<open>
  C4. \<open>loadNotesFromStorage\<close> returns the empty list, and raises nothing, when there is
  no window, when the key is absent, when its text does not parse and when it parses to
  a value that is not an array. On an array the records whose \<open>id\<close> is not a string
  (in particular \<open>null\<close> or missing) are dropped; each record kept gets "Untitled" for
  a missing or \<open>null\<close> title, the empty string for a missing or \<open>null\<close> content and
  the current time for an \<open>updatedAt\<close> that is not a number; the result is sorted by
  descending \<open>updatedAt\<close>. An array with an element \<open>null\<close> makes the filter throw,
  and the result is the empty list again.
\<close>

theorem loadNotesFromStorage_normalizes:
  "(\<not> hasWindow st \<or> items st STORAGE_KEY = None
      \<or> (\<exists>s. items st STORAGE_KEY = Some (Malformed s))
      \<or> (\<exists>j. items st STORAGE_KEY = Some (Json j) \<and> (\<forall>xs. j \<noteq> JArr xs))
     \<longrightarrow> loadNotesFromStorage now st = [])
   \<and> (hasWindow st \<and> items st STORAGE_KEY = Some (Json (JArr xs)) \<longrightarrow>
        (JNull \<in> set xs \<longrightarrow> loadNotesFromStorage now st = [])
      \<and> (JNull \<notin> set xs \<longrightarrow>
           loadNotesFromStorage now st
           = sortDesc (map (normalize now)
               (filter (\<lambda>v. \<exists>i. field v ''id'' = Some (JStr i)) xs))))
   \<and> sorted_desc (loadNotesFromStorage now st)
   \<and> (\<forall>v i. field v ''id'' = Some (JStr i) \<longrightarrow>
         id_note (normalize now v) = i
       \<and> title (normalize now v)
           = (case field v ''title'' of None \<Rightarrow> JStr ''Untitled''
              | Some JNull \<Rightarrow> JStr ''Untitled'' | Some t \<Rightarrow> t)
       \<and> content (normalize now v)
           = (case field v ''content'' of None \<Rightarrow> JStr []
              | Some JNull \<Rightarrow> JStr [] | Some c \<Rightarrow> c)
       \<and> updatedAt (normalize now v)
           = (case field v ''updatedAt'' of Some (JNum u) \<Rightarrow> u | _ \<Rightarrow> now))"
proof -
  have 1: "loadNotesFromStorage now st = []"
    if h: "\<not> hasWindow st \<or> items st STORAGE_KEY = None
      \<or> (\<exists>s. items st STORAGE_KEY = Some (Malformed s))
      \<or> (\<exists>j. items st STORAGE_KEY = Some (Json j) \<and> (\<forall>xs. j \<noteq> JArr xs))"
  proof -
    have "loadNotesFromStorage now st = []"
      if "items st STORAGE_KEY = Some (Json j)" "\<forall>xs. j \<noteq> JArr xs" for j
      using that by (cases j) (simp_all add: load_cases)
    then show ?thesis using h by (auto simp: load_cases)
  qed
  have 2: "(JNull \<in> set xs \<longrightarrow> loadNotesFromStorage now st = [])
      \<and> (JNull \<notin> set xs \<longrightarrow>
           loadNotesFromStorage now st
           = sortDesc (map (normalize now)
               (filter (\<lambda>v. \<exists>i. field v ''id'' = Some (JStr i)) xs)))"
    if "hasWindow st \<and> items st STORAGE_KEY = Some (Json (JArr xs))"
    using that by (simp add: load_cases)
  show ?thesis
    using 1 2 load_sorted [of now st] normalize_fields [of _ _ now] by blast
qed

theorem loadNotesFromStorage_normalizes_witness:
  "loadNotesFromStorage 7
     \<lparr>hasWindow = True,
      items = [STORAGE_KEY \<mapsto> Json (JArr
        [JObj [(''id'', JStr ''A''), (''updatedAt'', JNum 5)],
         JObj [(''id'', JNull), (''title'', JStr ''x'')],
         JNum 3,
         JObj [(''id'', JStr ''B''), (''title'', JStr ''t''), (''content'', JNull),
               (''updatedAt'', JStr ''soon'')]])],
      accepts = (\<lambda>t. True)\<rparr>
   = [\<lparr>id_note = ''B'', title = JStr ''t'', content = JStr [], updatedAt = 7\<rparr>,
      \<lparr>id_note = ''A'', title = JStr ''Untitled'', content = JStr [], updatedAt = 5\<rparr>]
   \<and> loadNotesFromStorage 7
       \<lparr>hasWindow = True, items = [STORAGE_KEY \<mapsto> Malformed ''[{''],
        accepts = (\<lambda>t. True)\<rparr> = []"
proof -
  let ?xs = "[JObj [(''id'', JStr ''A''), (''updatedAt'', JNum 5)],
         JObj [(''id'', JNull), (''title'', JStr ''x'')],
         JNum 3,
         JObj [(''id'', JStr ''B''), (''title'', JStr ''t''), (''content'', JNull),
               (''updatedAt'', JStr ''soon'')]]"
  let ?st = "\<lparr>hasWindow = True, items = [STORAGE_KEY \<mapsto> Json (JArr ?xs)],
              accepts = (\<lambda>t. True)\<rparr>"
  let ?bad = "\<lparr>hasWindow = True, items = [STORAGE_KEY \<mapsto> Malformed ''[{''],
               accepts = (\<lambda>t. True)\<rparr>"
  have a: "hasWindow ?st \<and> items ?st STORAGE_KEY = Some (Json (JArr ?xs))" by simp
  have n: "JNull \<notin> set ?xs" by simp
  have "loadNotesFromStorage 7 ?st
        = sortDesc (map (normalize 7)
            (filter (\<lambda>v. \<exists>i. field v ''id'' = Some (JStr i)) ?xs))"
    using loadNotesFromStorage_normalizes [of ?st 7 ?xs] a n by blast
  then have 1: "loadNotesFromStorage 7 ?st
     = [\<lparr>id_note = ''B'', title = JStr ''t'', content = JStr [], updatedAt = 7\<rparr>,
        \<lparr>id_note = ''A'', title = JStr ''Untitled'', content = JStr [], updatedAt = 5\<rparr>]"
    by (simp add: field_def normalize_def sortDesc_def)
  have "\<exists>s. items ?bad STORAGE_KEY = Some (Malformed s)" by simp
  then have 2: "loadNotesFromStorage 7 ?bad = []"
    using loadNotesFromStorage_normalizes [of ?bad 7 "[]"] by blast
  show ?thesis using 1 2 by (rule conjI)
qed

lemma items_save:
  "hasWindow st \<Longrightarrow> accepts st (JSON_stringify (JArr (map noteJson ns))) \<Longrightarrow>
   hasWindow (saveNotesToStorage ns st)
   \<and> items (saveNotesToStorage ns st) STORAGE_KEY = Some (Json (JArr (map noteJson ns)))"
  by (simp add: saveNotesToStorage_def Let_def JSON_stringify_def)

lemma filter_noteJson:
  "filter (\<lambda>v. \<exists>i. field v ''id'' = Some (JStr i)) (map noteJson ns) = map noteJson ns"
  by (induction ns) (simp_all add: field_noteJson)

lemma null_noteJson: "JNull \<notin> set (map noteJson ns)"
  by (auto simp: noteJson_def)

lemma load_save:
  assumes "hasWindow st" "accepts st (JSON_stringify (JArr (map noteJson ns)))"
  shows "loadNotesFromStorage now (saveNotesToStorage ns st) = map untyped (sortDesc ns)"
proof -
  have "loadNotesFromStorage now (saveNotesToStorage ns st)
        = sortDesc (map (normalize now) (map noteJson ns))"
    using items_save [OF assms] null_noteJson [of ns]
    by (simp add: load_cases filter_noteJson)
  also have "map (normalize now) (map noteJson ns) = map untyped ns"
    by (simp add: normalize_noteJson)
  finally show ?thesis by (simp add: sortDesc_untyped)
qed

lemma sorted_desc_untyped: "sorted_desc (map untyped ns) = sorted_desc ns"
  by (simp add: sorted_desc_def sorted_wrt_map untyped_def)

text \<open>
  C3. After \<open>saveNotesToStorage\<close> has written a collection of notes, which it does when
  the store takes the text, \<open>loadNotesFromStorage\<close> returns the same notes, none
  changed by the normalisation, sorted by descending \<open>updatedAt\<close>; it returns them in
  the original order when the collection was sorted.
\<close>

theorem save_load_roundtrip:
  "hasWindow st \<and> accepts st (JSON_stringify (JArr (map noteJson ns))) \<Longrightarrow>
   loadNotesFromStorage now (saveNotesToStorage ns st) = map untyped (sortDesc ns)
   \<and> mset (loadNotesFromStorage now (saveNotesToStorage ns st)) = image_mset untyped (mset ns)
   \<and> sorted_desc (loadNotesFromStorage now (saveNotesToStorage ns st))
   \<and> (sorted_desc ns \<longrightarrow>
        loadNotesFromStorage now (saveNotesToStorage ns st) = map untyped ns)"
proof -
  assume "hasWindow st \<and> accepts st (JSON_stringify (JArr (map noteJson ns)))"
  then have l: "loadNotesFromStorage now (saveNotesToStorage ns st) = map untyped (sortDesc ns)"
    using load_save by blast
  have "mset (map untyped (sortDesc ns)) = image_mset untyped (mset ns)"
    by (simp add: mset_sortDesc)
  moreover have "sorted_desc (map untyped (sortDesc ns))"
    by (simp add: sorted_desc_untyped sorted_desc_sortDesc)
  moreover have "sorted_desc ns \<longrightarrow> map untyped (sortDesc ns) = map untyped ns"
    by (simp add: sortDesc_id)
  ultimately show ?thesis unfolding l by blast
qed

theorem save_load_roundtrip_witness:
  "loadNotesFromStorage 7
     (saveNotesToStorage
        [\<lparr>id_note = ''A'', title = ''x'', content = ''c'', updatedAt = 1000\<rparr>,
         \<lparr>id_note = ''B'', title = ''y'', content = [], updatedAt = 2000\<rparr>]
        \<lparr>hasWindow = True, items = Map.empty, accepts = (\<lambda>t. True)\<rparr>)
   = [\<lparr>id_note = ''B'', title = JStr ''y'', content = JStr [], updatedAt = 2000\<rparr>,
      \<lparr>id_note = ''A'', title = JStr ''x'', content = JStr ''c'', updatedAt = 1000\<rparr>]"
proof -
  let ?ns = "[\<lparr>id_note = ''A'', title = ''x'', content = ''c'', updatedAt = 1000\<rparr>,
         \<lparr>id_note = ''B'', title = ''y'', content = [], updatedAt = 2000\<rparr>] :: note list"
  let ?st = "\<lparr>hasWindow = True, items = Map.empty, accepts = (\<lambda>t. True)\<rparr>"
  have "hasWindow ?st \<and> accepts ?st (JSON_stringify (JArr (map noteJson ?ns)))" by simp
  then have "loadNotesFromStorage 7 (saveNotesToStorage ?ns ?st) = map untyped (sortDesc ?ns)"
    using save_load_roundtrip [of ?st ?ns 7] by blast
  then show ?thesis by (simp add: sortDesc_def untyped_def)
qed

subsection \<open>Merge import\<close>

lemma first_latest_snoc:
  assumes "first_latest seen v" "id_note n = id_note v \<longrightarrow> updatedAt n \<le> updatedAt v"
  shows "first_latest (seen @ [n]) v"
proof -
  obtain pre post where p: "seen = pre @ v # post"
      "\<forall>m\<in>set pre. id_note m = id_note v \<longrightarrow> updatedAt m < updatedAt v"
      "\<forall>m\<in>set post. id_note m = id_note v \<longrightarrow> updatedAt m \<le> updatedAt v"
    using assms(1) unfolding first_latest_def by blast
  have "seen @ [n] = pre @ v # (post @ [n])" using p(1) by simp
  moreover have "\<forall>m\<in>set (post @ [n]). id_note m = id_note v \<longrightarrow> updatedAt m \<le> updatedAt v"
    using p(3) assms(2) by auto
  ultimately show ?thesis unfolding first_latest_def using p(2) by blast
qed

lemma first_latest_new:
  assumes "\<forall>m\<in>set seen. id_note m = id_note n \<longrightarrow> updatedAt m < updatedAt n"
  shows "first_latest (seen @ [n]) n"
proof -
  have "seen @ [n] = seen @ n # []" by simp
  moreover have "\<forall>m\<in>set []. id_note m = id_note n \<longrightarrow> updatedAt m \<le> updatedAt n" by simp
  ultimately show ?thesis unfolding first_latest_def using assms by blast
qed

lemma first_latest_max:
  assumes "first_latest seen e" "m \<in> set seen" "id_note m = id_note e"
  shows "updatedAt m \<le> updatedAt e"
proof -
  obtain pre post where p: "seen = pre @ e # post"
      "\<forall>m\<in>set pre. id_note m = id_note e \<longrightarrow> updatedAt m < updatedAt e"
      "\<forall>m\<in>set post. id_note m = id_note e \<longrightarrow> updatedAt m \<le> updatedAt e"
    using assms(1) unfolding first_latest_def by blast
  from assms(2) p(1) consider "m \<in> set pre" | "m = e" | "m \<in> set post" by auto
  then show ?thesis using p(2,3) assms(3) by cases force+
qed

lemma first_latest_mem: "first_latest seen e \<Longrightarrow> e \<in> set seen"
  unfolding first_latest_def by auto

lemma keys_map_set: "fst ` set (map_set m k v) = insert k (fst ` set m)"
  by (induction m k v rule: map_set.induct) auto

lemma distinct_map_set: "distinct (map fst m) \<Longrightarrow> distinct (map fst (map_set m k v))"
  by (induction m k v rule: map_set.induct) (auto simp: keys_map_set)

lemma map_of_map_set: "map_of (map_set m k v) x = (if x = k then Some v else map_of m x)"
  by (induction m k v rule: map_set.induct) auto

lemma dom_map_set: "dom (map_of (map_set m k v)) = insert k (dom (map_of m))"
  by (auto simp: dom_def map_of_map_set)

lemma merge_inv_empty: "merge_inv [] []"
  by (simp add: merge_inv_def)

lemma merge_inv_step:
  assumes "merge_inv seen byId"
  shows "merge_inv (seen @ [n]) (mergeStep n byId)"
proof -
  have d: "distinct (map fst byId)"
    and k: "dom (map_of byId) = id_note ` set seen"
    and e: "\<And>k v. map_of byId k = Some v \<Longrightarrow> id_note v = k \<and> first_latest seen v"
    using assms unfolding merge_inv_def by blast+
  have old: "first_latest (seen @ [n]) v"
    if "map_of byId k = Some v" "k \<noteq> id_note n" for k v
    using e [OF that(1)] that(2) by (intro first_latest_snoc) auto
  show ?thesis
  proof (cases "map_of byId (id_note n)")
    case None
    then have fresh: "\<forall>m\<in>set seen. id_note m \<noteq> id_note n"
      using k by (metis domIff imageI)
    have new: "first_latest (seen @ [n]) n"
      using fresh by (intro first_latest_new) auto
    have step: "mergeStep n byId = map_set byId (id_note n) n"
      using None by (simp add: mergeStep_def map_get_def)
    show ?thesis
      unfolding merge_inv_def step
      using d k e old new by (auto simp: distinct_map_set dom_map_set map_of_map_set split: if_splits)
  next
    case (Some ex)
    have ex: "id_note ex = id_note n" "first_latest seen ex" using e [OF Some] by auto
    have dom: "id_note n \<in> dom (map_of byId)" using Some by auto
    show ?thesis
    proof (cases "updatedAt n > updatedAt ex")
      case True
      have "\<forall>m\<in>set seen. id_note m = id_note n \<longrightarrow> updatedAt m < updatedAt n"
        using first_latest_max [OF ex(2)] ex(1) True by fastforce
      then have new: "first_latest (seen @ [n]) n" by (rule first_latest_new)
      have step: "mergeStep n byId = map_set byId (id_note n) n"
        using Some True by (simp add: mergeStep_def map_get_def)
      show ?thesis
        unfolding merge_inv_def step
        using d k e old new dom
        by (auto simp: distinct_map_set dom_map_set map_of_map_set split: if_splits)
    next
      case False
      have step: "mergeStep n byId = byId"
        using Some False by (simp add: mergeStep_def map_get_def)
      have keep: "first_latest (seen @ [n]) ex"
        using ex False by (intro first_latest_snoc) auto
      have "first_latest (seen @ [n]) v \<and> id_note v = k" if "map_of byId k = Some v" for k v
      proof (cases "k = id_note n")
        case True
        then have "v = ex" using that Some by simp
        then show ?thesis using keep e [OF that] by simp
      next
        case False
        then show ?thesis using old [OF that] e [OF that] by simp
      qed
      moreover have "dom (map_of byId) = id_note ` set (seen @ [n])"
        using k dom by auto
      ultimately show ?thesis unfolding merge_inv_def step using d by blast
    qed
  qed
qed

lemma merge_inv_fold: "merge_inv xs (fold mergeStep xs [])"
proof (induction xs rule: rev_induct)
  case Nil
  then show ?case by (simp add: merge_inv_empty)
next
  case (snoc x xs)
  then show ?case by (simp add: merge_inv_step)
qed

lemma those_Some: "those ys = Some zs \<Longrightarrow> ys = map Some zs"
proof (induction ys arbitrary: zs)
  case Nil
  then show ?case by simp
next
  case (Cons y ys)
  then show ?case by (cases y; cases "those ys") auto
qed

lemma asNote_null: "asNote JNull = None"
  by (simp add: asNote_def field_def)

lemma those_no_null:
  assumes "those (map asNote xs) = Some imported"
  shows "JNull \<notin> set xs"
proof
  assume "JNull \<in> set xs"
  then have "None \<in> set (map asNote xs)" using asNote_null by force
  then show False using those_Some [OF assms] by auto
qed

lemma importNotes_array:
  assumes "JSON_parse file = Inr (JArr xs)" "those (map asNote xs) = Some imported"
  shows "importNotes file st = Some (st\<lparr>notes := mergeNotes (notes st) imported\<rparr>)"
  using assms those_no_null [OF assms(2)] by (simp add: importNotes_def)

lemma merged_values:
  assumes "merge_inv all byId"
  shows "map id_note (map_values byId) = map fst byId"
    and "set (map_values byId) = ran (map_of byId)"
proof -
  have d: "distinct (map fst byId)"
    and e: "\<And>k v. map_of byId k = Some v \<Longrightarrow> id_note v = k"
    using assms unfolding merge_inv_def by blast+
  have "id_note (snd p) = fst p" if "p \<in> set byId" for p
  proof -
    have "map_of byId (fst p) = Some (snd p)" using d that by simp
    then show ?thesis by (rule e)
  qed
  then show "map id_note (map_values byId) = map fst byId"
    by (simp add: map_values_def)
  show "set (map_values byId) = ran (map_of byId)"
    using d by (simp add: map_values_def ran_distinct)
qed

lemma mergeNotes_props:
  "distinct (map id_note (mergeNotes current imported))"
  "id_note ` set (mergeNotes current imported) = id_note ` set (current @ imported)"
  "\<forall>n\<in>set (mergeNotes current imported). first_latest (current @ imported) n"
  "sorted_desc (mergeNotes current imported)"
proof -
  let ?all = "current @ imported"
  let ?byId = "fold mergeStep ?all []"
  have inv: "merge_inv ?all ?byId" by (rule merge_inv_fold)
  have d: "distinct (map fst ?byId)"
    and k: "dom (map_of ?byId) = id_note ` set ?all"
    and e: "\<And>k v. map_of ?byId k = Some v \<Longrightarrow> first_latest ?all v"
    using inv unfolding merge_inv_def by blast+
  have "mset (map id_note (mergeNotes current imported)) = mset (map id_note (map_values ?byId))"
    by (simp add: mergeNotes_def mset_sortDesc)
  then have "distinct (map id_note (mergeNotes current imported))
             = distinct (map id_note (map_values ?byId))"
    by (rule mset_eq_imp_distinct_iff)
  then show "distinct (map id_note (mergeNotes current imported))"
    using d merged_values(1) [OF inv] by simp
  have s: "set (mergeNotes current imported) = ran (map_of ?byId)"
    using merged_values(2) [OF inv] by (simp only: mergeNotes_def set_sortDesc)
  have "id_note ` set (mergeNotes current imported) = set (map id_note (map_values ?byId))"
    by (simp add: mergeNotes_def set_sortDesc)
  also have "\<dots> = fst ` set ?byId" by (simp only: merged_values(1) [OF inv] set_map)
  also have "\<dots> = dom (map_of ?byId)" by (simp add: dom_map_of_conv_image_fst)
  finally show "id_note ` set (mergeNotes current imported) = id_note ` set ?all"
    using k by simp
  show "\<forall>n\<in>set (mergeNotes current imported). first_latest ?all n"
    unfolding s ran_def using e by blast
  show "sorted_desc (mergeNotes current imported)"
    by (simp add: mergeNotes_def sorted_desc_sortDesc)
qed

text \<open>
  C1 (as amended). When the imported text parses to an array of notes, \<open>importNotes\<close>
  replaces the collection by the merge of the current and the imported notes: one note
  for each id that occurs in either, namely the variant with the greatest \<open>updatedAt\<close>
  and, among equals, the one met first (current notes first, then the imported ones in
  order); the result is sorted by descending \<open>updatedAt\<close>.
\<close>

theorem importNotes_merges:
  "JSON_parse file = Inr (JArr xs) \<and> those (map asNote xs) = Some imported \<Longrightarrow>
   importNotes file st = Some (st\<lparr>notes := mergeNotes (notes st) imported\<rparr>)
   \<and> distinct (map id_note (mergeNotes (notes st) imported))
   \<and> id_note ` set (mergeNotes (notes st) imported) = id_note ` set (notes st @ imported)
   \<and> (\<forall>n\<in>set (mergeNotes (notes st) imported). first_latest (notes st @ imported) n)
   \<and> sorted_desc (mergeNotes (notes st) imported)"
  using importNotes_array [of "file" xs imported st] mergeNotes_props [of "notes st" imported]
  by blast

theorem importNotes_merges_witness:
  "importNotes
     (Json (JArr [noteJson \<lparr>id_note = ''A'', title = ''a2'', content = [], updatedAt = 200\<rparr>,
                  noteJson \<lparr>id_note = ''B'', title = ''b'', content = [], updatedAt = 50\<rparr>]))
     \<lparr>notes = [\<lparr>id_note = ''A'', title = ''a1'', content = [], updatedAt = 100\<rparr>],
      selectedId = Some ''A'', query = []\<rparr>
   = Some \<lparr>notes = [\<lparr>id_note = ''A'', title = ''a2'', content = [], updatedAt = 200\<rparr>,
                    \<lparr>id_note = ''B'', title = ''b'', content = [], updatedAt = 50\<rparr>],
           selectedId = Some ''A'', query = []\<rparr>"
proof -
  let ?A2 = "\<lparr>id_note = ''A'', title = ''a2'', content = [], updatedAt = 200\<rparr> :: note"
  let ?B = "\<lparr>id_note = ''B'', title = ''b'', content = [], updatedAt = 50\<rparr> :: note"
  let ?st = "\<lparr>notes = [\<lparr>id_note = ''A'', title = ''a1'', content = [], updatedAt = 100\<rparr>],
      selectedId = Some ''A'', query = []\<rparr>"
  have "JSON_parse (Json (JArr [noteJson ?A2, noteJson ?B])) = Inr (JArr [noteJson ?A2, noteJson ?B])
        \<and> those (map asNote [noteJson ?A2, noteJson ?B]) = Some [?A2, ?B]"
    by (simp add: asNote_noteJson)
  then have "importNotes (Json (JArr [noteJson ?A2, noteJson ?B])) ?st
             = Some (?st\<lparr>notes := mergeNotes (notes ?st) [?A2, ?B]\<rparr>)"
    using importNotes_merges [of "Json (JArr [noteJson ?A2, noteJson ?B])" "[noteJson ?A2, noteJson ?B]"
        "[?A2, ?B]" ?st]
    by blast
  then show ?thesis
    by (simp add: mergeNotes_def mergeStep_def map_get_def map_values_def sortDesc_def)
qed

text \<open>
  The claim as stated fails on a tie: the imported variant of \<open>A\<close> is met last and has
  the same \<open>updatedAt\<close> as the current one, and the current one is kept
  (\<open>n.updatedAt > existing.updatedAt\<close> is strict).
\<close>

theorem importNotes_tie_counterexample:
  "importNotes
     (Json (JArr [noteJson \<lparr>id_note = ''A'', title = ''new'', content = [], updatedAt = 100\<rparr>]))
     \<lparr>notes = [\<lparr>id_note = ''A'', title = ''old'', content = [], updatedAt = 100\<rparr>],
      selectedId = None, query = []\<rparr>
   = Some \<lparr>notes = [\<lparr>id_note = ''A'', title = ''old'', content = [], updatedAt = 100\<rparr>],
           selectedId = None, query = []\<rparr>"
  by (simp add: importNotes_def noteJson_def asNote_def field_def mergeNotes_def mergeStep_def
      map_get_def map_values_def sortDesc_def)

subsection \<open>Debounced save\<close>

lemma clearSaveTimer_idle: "timers w = [] \<Longrightarrow> timers (clearSaveTimer w) = []"
  by (simp add: clearSaveTimer_def clearTimeout_def split: option.split)

lemma clearSaveTimer_armed: "armed t ns w \<Longrightarrow> timers (clearSaveTimer w) = []"
  by (auto simp: armed_def clearSaveTimer_def clearTimeout_def)

lemma clearSaveTimer_fields:
  "clock (clearSaveTimer w) = clock w" "issued (clearSaveTimer w) = issued w"
  "saveTimer (clearSaveTimer w) = saveTimer w" "disk (clearSaveTimer w) = disk w"
  "writes (clearSaveTimer w) = writes w"
  by (simp_all add: clearSaveTimer_def clearTimeout_def split: option.split)

lemma saveEffect_idle:
  assumes "timers w = []"
  shows "armed (clock w) ns (saveEffect ns w)"
    and "writes (saveEffect ns w) = writes w" and "disk (saveEffect ns w) = disk w"
  using clearSaveTimer_idle [OF assms]
  by (simp_all add: saveEffect_def setTimeout_def Let_def armed_def clearSaveTimer_fields)

lemma advance_idle:
  assumes "timers w = []"
  shows "timers (advance t w) = []" "clock (advance t w) = t"
    "writes (advance t w) = writes w" "disk (advance t w) = disk w"
  using assms by (simp_all add: advance_def)

lemma advance_early:
  assumes "armed t0 ns0 w" "t < t0 + 300"
  shows "armed t0 ns0 (advance t w)" "clock (advance t w) = t"
    "writes (advance t w) = writes w" "disk (advance t w) = disk w"
  using assms by (auto simp: advance_def armed_def)

lemma advance_due:
  assumes "armed t0 ns0 w" "t0 + 300 \<le> t"
  shows "timers (advance t w) = []"
    "writes (advance t w) = writes w @ [(t0 + 300, ns0)]"
    "disk (advance t w) = saveNotesToStorage ns0 (disk w)"
  using assms by (auto simp: advance_def armed_def fire_def)

lemma mutate_idle:
  assumes "timers w = []"
  shows "armed t ns (mutate (t, ns) w)"
    and "writes (mutate (t, ns) w) = writes w" and "disk (mutate (t, ns) w) = disk w"
proof -
  let ?w = "clearSaveTimer (advance t w)"
  have i: "timers ?w = []" using advance_idle(1) [OF assms] by (rule clearSaveTimer_idle)
  have c: "clock ?w = t" by (simp add: clearSaveTimer_fields advance_idle(2) [OF assms])
  show "armed t ns (mutate (t, ns) w)"
    using saveEffect_idle(1) [OF i, of ns] c by (simp add: mutate_def)
  show "writes (mutate (t, ns) w) = writes w"
    using saveEffect_idle(2) [OF i, of ns]
    by (simp add: mutate_def clearSaveTimer_fields advance_idle(3) [OF assms])
  show "disk (mutate (t, ns) w) = disk w"
    using saveEffect_idle(3) [OF i, of ns]
    by (simp add: mutate_def clearSaveTimer_fields advance_idle(4) [OF assms])
qed

lemma mutate_armed:
  assumes "armed t0 ns0 w" "t < t0 + 300"
  shows "armed t ns (mutate (t, ns) w)"
    and "writes (mutate (t, ns) w) = writes w" and "disk (mutate (t, ns) w) = disk w"
proof -
  let ?w = "clearSaveTimer (advance t w)"
  have i: "timers ?w = []"
    using advance_early(1) [OF assms] by (rule clearSaveTimer_armed)
  have c: "clock ?w = t" by (simp add: clearSaveTimer_fields advance_early(2) [OF assms])
  show "armed t ns (mutate (t, ns) w)"
    using saveEffect_idle(1) [OF i, of ns] c by (simp add: mutate_def)
  show "writes (mutate (t, ns) w) = writes w"
    using saveEffect_idle(2) [OF i, of ns]
    by (simp add: mutate_def clearSaveTimer_fields advance_early(3) [OF assms])
  show "disk (mutate (t, ns) w) = disk w"
    using saveEffect_idle(3) [OF i, of ns]
    by (simp add: mutate_def clearSaveTimer_fields advance_early(4) [OF assms])
qed

lemma burst_armed:
  assumes "armed t ns w" "burst t es"
  shows "armed (fst (last ((t, ns) # es))) (snd (last ((t, ns) # es))) (fold mutate es w)
         \<and> writes (fold mutate es w) = writes w \<and> disk (fold mutate es w) = disk w"
  using assms
proof (induction es arbitrary: t ns w)
  case Nil
  then show ?case by simp
next
  case (Cons e es)
  obtain t' ns' where e: "e = (t', ns')" by (cases e)
  have b: "t \<le> t'" "t' < t + 300" "burst t' es" using Cons.prems(2) e by simp_all
  have a: "armed t' ns' (mutate (t', ns') w)"
    and w: "writes (mutate (t', ns') w) = writes w" "disk (mutate (t', ns') w) = disk w"
    using mutate_armed [OF Cons.prems(1) b(2)] by blast+
  show ?case using Cons.IH [OF a b(3)] w e by simp
qed

lemma burst_take: "burst t es \<Longrightarrow> burst t (take k es)"
proof (induction es arbitrary: t k)
  case Nil
  then show ?case by simp
next
  case (Cons e es)
  then show ?case by (cases k) simp_all
qed

lemma advance_at_most_one:
  assumes "timers w = [] \<or> (\<exists>t ns. armed t ns w)"
  shows "length (timers (advance T w)) \<le> 1"
proof -
  from assms consider "timers w = []" | t ns where "armed t ns w" by blast
  then show ?thesis
  proof cases
    case 1
    then show ?thesis by (simp add: advance_idle(1))
  next
    case 2
    show ?thesis
    proof (cases "T < t + 300")
      case True
      then have "armed t ns (advance T w)" using 2 by (rule advance_early(1) [rotated])
      then show ?thesis by (auto simp: armed_def)
    next
      case False
      then have "timers (advance T w) = []" using 2 by (intro advance_due(1)) auto
      then show ?thesis by simp
    qed
  qed
qed

lemma prefix_state:
  assumes "timers w = []" "burst t es"
  shows "timers (fold mutate (take k ((t, ns) # es)) w) = []
         \<or> (\<exists>t' ns'. armed t' ns' (fold mutate (take k ((t, ns) # es)) w))"
proof (cases k)
  case 0
  then show ?thesis using assms(1) by simp
next
  case (Suc j)
  have "armed t ns (mutate (t, ns) w)" using assms(1) by (rule mutate_idle(1))
  then have "armed (fst (last ((t, ns) # take j es))) (snd (last ((t, ns) # take j es)))
               (fold mutate (take j es) (mutate (t, ns) w))"
    using burst_armed burst_take [OF assms(2)] by blast
  then show ?thesis using Suc by auto
qed

text \<open>
  C9. Start with no flush pending and let a mutation at time \<open>t\<close> be followed by
  further mutations, each less than 300 milliseconds after the one before. Until 300
  milliseconds have passed since the last of them nothing is written. Once they have
  passed, \<open>saveNotesToStorage\<close> has been called exactly once, at 300 milliseconds after
  the last mutation and with the collection that mutation set, and no timer is left;
  when the store takes the text, the durable key then holds the serialisation of that
  collection, and loading returns it. At every time, after any number of the mutations,
  at most one timer is pending.
\<close>

theorem debounce_single_write:
  "timers w = [] \<and> burst t es \<and> fst (last ((t, ns) # es)) + 300 \<le> T \<Longrightarrow>
   writes (advance T (fold mutate ((t, ns) # es) w))
     = writes w @ [(fst (last ((t, ns) # es)) + 300, snd (last ((t, ns) # es)))]
   \<and> disk (advance T (fold mutate ((t, ns) # es) w))
     = saveNotesToStorage (snd (last ((t, ns) # es))) (disk w)
   \<and> (hasWindow (disk w)
        \<and> accepts (disk w) (JSON_stringify (JArr (map noteJson (snd (last ((t, ns) # es))))))
      \<longrightarrow> items (disk (advance T (fold mutate ((t, ns) # es) w))) STORAGE_KEY
            = Some (JSON_stringify (JArr (map noteJson (snd (last ((t, ns) # es))))))
        \<and> loadNotesFromStorage now (disk (advance T (fold mutate ((t, ns) # es) w)))
            = map untyped (sortDesc (snd (last ((t, ns) # es)))))
   \<and> (\<forall>T'. T' < fst (last ((t, ns) # es)) + 300 \<longrightarrow>
          writes (advance T' (fold mutate ((t, ns) # es) w)) = writes w
        \<and> disk (advance T' (fold mutate ((t, ns) # es) w)) = disk w)
   \<and> timers (advance T (fold mutate ((t, ns) # es) w)) = []
   \<and> (\<forall>k T'. length (timers (advance T' (fold mutate (take k ((t, ns) # es)) w))) \<le> 1)"
proof -
  assume h: "timers w = [] \<and> burst t es \<and> fst (last ((t, ns) # es)) + 300 \<le> T"
  let ?tl = "fst (last ((t, ns) # es))" and ?nl = "snd (last ((t, ns) # es))"
  let ?w1 = "mutate (t, ns) w"
  let ?wn = "fold mutate ((t, ns) # es) w"
  have a1: "armed t ns ?w1" and w1: "writes ?w1 = writes w" "disk ?w1 = disk w"
    using h mutate_idle by blast+
  have an: "armed ?tl ?nl ?wn" and wn: "writes ?wn = writes w" "disk ?wn = disk w"
    using burst_armed [OF a1, of es] h w1 by simp_all
  have due: "?tl + 300 \<le> T" using h by blast
  have wr: "writes (advance T ?wn) = writes w @ [(?tl + 300, ?nl)]"
    using advance_due(2) [OF an due] wn by simp
  have dk: "disk (advance T ?wn) = saveNotesToStorage ?nl (disk w)"
    using advance_due(3) [OF an due] wn by simp
  have st: "items (disk (advance T ?wn)) STORAGE_KEY = Some (JSON_stringify (JArr (map noteJson ?nl)))
        \<and> loadNotesFromStorage now (disk (advance T ?wn)) = map untyped (sortDesc ?nl)"
    if ok: "hasWindow (disk w) \<and> accepts (disk w) (JSON_stringify (JArr (map noteJson ?nl)))"
  proof -
    have hw: "hasWindow (disk w)" and ac: "accepts (disk w) (JSON_stringify (JArr (map noteJson ?nl)))"
      using ok by blast+
    have "items (saveNotesToStorage ?nl (disk w)) STORAGE_KEY
          = Some (JSON_stringify (JArr (map noteJson ?nl)))"
      using items_save [OF hw ac] by (simp add: JSON_stringify_def)
    moreover have "loadNotesFromStorage now (saveNotesToStorage ?nl (disk w))
          = map untyped (sortDesc ?nl)"
      using hw ac by (rule load_save)
    ultimately show ?thesis unfolding dk by blast
  qed
  have early: "writes (advance T' ?wn) = writes w \<and> disk (advance T' ?wn) = disk w"
    if "T' < ?tl + 300" for T'
    using advance_early(3,4) [OF an that] wn by simp
  have tm: "timers (advance T ?wn) = []"
    using advance_due(1) [OF an due] .
  have one: "length (timers (advance T' (fold mutate (take k ((t, ns) # es)) w))) \<le> 1"
    for k T'
    using h prefix_state [of w t es k ns] by (intro advance_at_most_one) blast
  show ?thesis using wr dk st early tm one by blast
qed

theorem debounce_single_write_witness:
  "writes (advance 1500
     (fold mutate
        [(1000, [\<lparr>id_note = ''A'', title = ''h'', content = [], updatedAt = 1000\<rparr>]),
         (1050, [\<lparr>id_note = ''A'', title = ''he'', content = [], updatedAt = 1050\<rparr>]),
         (1100, [\<lparr>id_note = ''A'', title = ''hel'', content = [], updatedAt = 1100\<rparr>]),
         (1150, [\<lparr>id_note = ''A'', title = ''hell'', content = [], updatedAt = 1150\<rparr>]),
         (1200, [\<lparr>id_note = ''A'', title = ''hello'', content = [], updatedAt = 1200\<rparr>])]
        \<lparr>clock = 0, timers = [], issued = 0, saveTimer = None,
         disk = \<lparr>hasWindow = True, items = Map.empty, accepts = (\<lambda>t. True)\<rparr>,
         writes = []\<rparr>))
   = [(1500, [\<lparr>id_note = ''A'', title = ''hello'', content = [], updatedAt = 1200\<rparr>])]
   \<and> items (disk (advance 1500
     (fold mutate
        [(1000, [\<lparr>id_note = ''A'', title = ''h'', content = [], updatedAt = 1000\<rparr>]),
         (1050, [\<lparr>id_note = ''A'', title = ''he'', content = [], updatedAt = 1050\<rparr>]),
         (1100, [\<lparr>id_note = ''A'', title = ''hel'', content = [], updatedAt = 1100\<rparr>]),
         (1150, [\<lparr>id_note = ''A'', title = ''hell'', content = [], updatedAt = 1150\<rparr>]),
         (1200, [\<lparr>id_note = ''A'', title = ''hello'', content = [], updatedAt = 1200\<rparr>])]
        \<lparr>clock = 0, timers = [], issued = 0, saveTimer = None,
         disk = \<lparr>hasWindow = True, items = Map.empty, accepts = (\<lambda>t. True)\<rparr>,
         writes = []\<rparr>))) STORAGE_KEY
   = Some (Json (JArr
       [JObj [(''id'', JStr ''A''), (''title'', JStr ''hello''), (''content'', JStr []),
              (''updatedAt'', JNum 1200)]]))
   \<and> items (disk (advance 1499
     (fold mutate
        [(1000, [\<lparr>id_note = ''A'', title = ''h'', content = [], updatedAt = 1000\<rparr>]),
         (1050, [\<lparr>id_note = ''A'', title = ''he'', content = [], updatedAt = 1050\<rparr>]),
         (1100, [\<lparr>id_note = ''A'', title = ''hel'', content = [], updatedAt = 1100\<rparr>]),
         (1150, [\<lparr>id_note = ''A'', title = ''hell'', content = [], updatedAt = 1150\<rparr>]),
         (1200, [\<lparr>id_note = ''A'', title = ''hello'', content = [], updatedAt = 1200\<rparr>])]
        \<lparr>clock = 0, timers = [], issued = 0, saveTimer = None,
         disk = \<lparr>hasWindow = True, items = Map.empty, accepts = (\<lambda>t. True)\<rparr>,
         writes = []\<rparr>))) STORAGE_KEY
   = None"
proof -
  let ?w = "\<lparr>clock = 0, timers = [], issued = 0, saveTimer = None,
         disk = \<lparr>hasWindow = True, items = Map.empty, accepts = (\<lambda>t. True)\<rparr>,
         writes = []\<rparr>"
  let ?n1 = "[\<lparr>id_note = ''A'', title = ''h'', content = [], updatedAt = 1000\<rparr>] :: note list"
  let ?n5 = "[\<lparr>id_note = ''A'', title = ''hello'', content = [], updatedAt = 1200\<rparr>] :: note list"
  let ?es = "[(1050, [\<lparr>id_note = ''A'', title = ''he'', content = [], updatedAt = 1050\<rparr>]),
         (1100, [\<lparr>id_note = ''A'', title = ''hel'', content = [], updatedAt = 1100\<rparr>]),
         (1150, [\<lparr>id_note = ''A'', title = ''hell'', content = [], updatedAt = 1150\<rparr>]),
         (1200, [\<lparr>id_note = ''A'', title = ''hello'', content = [], updatedAt = 1200\<rparr>])]
         :: (nat \<times> note list) list"
  let ?wn = "fold mutate ((1000, ?n1) # ?es) ?w"
  have l: "fst (last ((1000, ?n1) # ?es)) = 1200" "snd (last ((1000, ?n1) # ?es)) = ?n5"
    by simp_all
  have h: "timers ?w = [] \<and> burst 1000 ?es \<and> fst (last ((1000, ?n1) # ?es)) + 300 \<le> 1500"
    by simp
  have ok: "hasWindow (disk ?w) \<and> accepts (disk ?w) (JSON_stringify (JArr (map noteJson ?n5)))"
    by simp
  note d = debounce_single_write [OF h, of 0, unfolded l]
  have 1: "writes (advance 1500 ?wn) = writes ?w @ [(1200 + 300, ?n5)]"
    using d by blast
  have 2: "items (disk (advance 1500 ?wn)) STORAGE_KEY
           = Some (JSON_stringify (JArr (map noteJson ?n5)))"
    using d ok by blast
  have "(1499::nat) < 1200 + 300" by simp
  then have 3: "disk (advance 1499 ?wn) = disk ?w"
    using d by blast
  have 1: "writes (advance 1500 ?wn) = [(1500, ?n5)]" using 1 by simp
  have 2: "items (disk (advance 1500 ?wn)) STORAGE_KEY
     = Some (Json (JArr
       [JObj [(''id'', JStr ''A''), (''title'', JStr ''hello''), (''content'', JStr []),
              (''updatedAt'', JNum 1200)]]))"
    using 2 by (simp add: JSON_stringify_def noteJson_def)
  have 3: "items (disk (advance 1499 ?wn)) STORAGE_KEY = None"
    unfolding 3 by simp
  show ?thesis using 1 2 3 by (intro conjI)
qed

end
